theory Spec2Isabelle
  imports Complex_Main "HOL-Library.Char_ord" "HOL-Library.List_Lexorder"
    "HOL-Library.Product_Lexorder"
    "HOL-Library.Multiset" "HOL-Library.Sublist"
begin

section \<open>JavaScript values used by the event code\<close>

text \<open>
  Event payloads are untyped JSON. Only the shape that the routing code inspects is kept:
  primitives and objects as association lists. Strings are sequences of code units below 256.
\<close>

datatype jsval =
    JUndefined
  | JNull
  | JBool bool
  | JNum int
  | JStr string
  | JObj "(string \<times> jsval) list"

text \<open>Truthiness as an \<open>if (x)\<close> guard sees it.\<close>

fun truthy :: "jsval \<Rightarrow> bool" where
  "truthy JUndefined = False"
| "truthy JNull = False"
| "truthy (JBool b) = b"
| "truthy (JNum n) = (n \<noteq> 0)"
| "truthy (JStr s) = (s \<noteq> [])"
| "truthy (JObj kvs) = True"

text \<open>
  Property read \<open>x.k\<close>: a \<open>TypeError\<close> on \<open>null\<close> and \<open>undefined\<close>, \<open>undefined\<close> for a
  missing key or a primitive. The optional read \<open>x?.k\<close> yields \<open>undefined\<close> instead of raising.
\<close>

datatype js_error = TypeError

fun get_prop :: "jsval \<Rightarrow> string \<Rightarrow> js_error + jsval" where
  "get_prop JUndefined k = Inl TypeError"
| "get_prop JNull k = Inl TypeError"
| "get_prop (JObj kvs) k = Inr (case map_of kvs k of None \<Rightarrow> JUndefined | Some v \<Rightarrow> v)"
| "get_prop v k = Inr JUndefined"

fun opt_prop :: "jsval \<Rightarrow> string \<Rightarrow> jsval" where
  "opt_prop v k = (case get_prop v k of Inl e \<Rightarrow> JUndefined | Inr r \<Rightarrow> r)"

section \<open>Numbers and offset strings\<close>

text \<open>
  A JavaScript number that holds an integer or \<open>NaN\<close>. Doubles are exact on integers of
  magnitude below \<open>2^53\<close>, and \<open>String\<close> prints plain decimal digits below \<open>10^21\<close>; the
  theorems below stay inside \<open>10^10\<close>.
\<close>

datatype jsnum = NaN | Num int

definition incr :: "jsnum \<Rightarrow> jsnum" where
  "incr x = (case x of NaN \<Rightarrow> NaN | Num n \<Rightarrow> Num (n + 1))"

definition digit_char :: "nat \<Rightarrow> char" where
  "digit_char d = ''0123456789'' ! d"

fun nat_digits :: "nat \<Rightarrow> string" where
  "nat_digits n = (if n < 10 then [digit_char n] else nat_digits (n div 10) @ [digit_char (n mod 10)])"

declare nat_digits.simps [simp del]

text \<open>\<open>String(n)\<close>\<close>

definition number_to_string :: "jsnum \<Rightarrow> string" where
  "number_to_string x =
     (case x of
        NaN \<Rightarrow> ''NaN''
      | Num n \<Rightarrow> if n < 0 then CHR ''-'' # nat_digits (nat (- n)) else nat_digits (nat n))"

text \<open>\<open>s.padStart(n, c)\<close> with a one-character pad: a string already long enough is unchanged.\<close>

function padStart :: "nat \<Rightarrow> char \<Rightarrow> string \<Rightarrow> string" where
  "padStart n c s = (if length s < n then padStart n c (c # s) else s)"
  by pat_completeness auto
termination
  by (relation "measure (\<lambda>(n, c, s). n - length s)") auto

declare padStart.simps [simp del]

definition is_digit :: "char \<Rightarrow> bool" where
  "is_digit c = (CHR ''0'' \<le> c \<and> c \<le> CHR ''9'')"

definition digit_val :: "char \<Rightarrow> nat" where
  "digit_val c = of_char c - 48"

definition is_space :: "char \<Rightarrow> bool" where
  "is_space c = ((of_char c :: nat) \<in> {9, 10, 11, 12, 13, 32, 160})"

definition digits_val :: "string \<Rightarrow> nat" where
  "digits_val ds = foldl (\<lambda>a c. 10 * a + digit_val c) 0 ds"

text \<open>
  \<open>Number.parseInt(s, 10)\<close>: leading white space is skipped, one sign is accepted, the
  longest run of decimal digits is read, and no digit at all gives \<open>NaN\<close>.
\<close>

definition parseInt :: "string \<Rightarrow> jsnum" where
  "parseInt s =
     (let t = dropWhile is_space s;
          neg = (t \<noteq> [] \<and> hd t = CHR ''-'');
          u = (if t \<noteq> [] \<and> (hd t = CHR ''-'' \<or> hd t = CHR ''+'') then tl t else t);
          ds = takeWhile is_digit u
      in if ds = [] then NaN
         else Num ((if neg then - 1 else 1) * int (digits_val ds)))"

text \<open>An offset is a branded string; an absent one is \<open>None\<close>.\<close>

type_synonym EventOffset = string

text \<open>\<open>offset ? Number.parseInt(offset, 10) : 0\<close>: the empty string is falsy.\<close>

definition start_counter :: "EventOffset option \<Rightarrow> jsnum" where
  "start_counter offset =
     (case offset of
        None \<Rightarrow> Num 0
      | Some s \<Rightarrow> if s = [] then Num 0 else parseInt s)"

text \<open>\<open>String(offsetCounter).padStart(10, "0")\<close>\<close>

definition format_offset :: "jsnum \<Rightarrow> EventOffset" where
  "format_offset c = padStart 10 (CHR ''0'') (number_to_string c)"

section \<open>Domain entities\<close>

record Session =
  s_id :: string
  s_title :: string
  s_directory :: string
  s_parentID :: "string option"
  s_created :: int
  s_updated :: int

section \<open>Resumable cursor stream: catch-up, tail, resume\<close>

text \<open>
  What one discovered backend answers to the two bootstrap queries at the moment of a
  catch-up call: its session list and the entries of its status map, in enumeration order.
\<close>

record DiscoveredServer =
  port :: nat
  directory :: string
  sessions :: "Session list"
  statusMap :: "(string \<times> jsval) list"

datatype payload =
    SessionRef string string
  | SessionStatusRef string string
  | Properties jsval

record WorldEvent =
  type :: string
  offset :: EventOffset
  timestamp :: int
  upToDate :: bool
  payload :: payload

text \<open>
  The response's own \<open>upToDate\<close> flag is the field \<open>caughtUp\<close> here, the name \<open>upToDate\<close>
  being taken by the event record.
\<close>

record CatchUpResponse =
  events :: "WorldEvent list"
  nextOffset :: "EventOffset option"
  caughtUp :: bool

text \<open>
  The loop state of \<open>catchUpEvents\<close> is the pair of the \<open>events\<close> array and
  \<open>offsetCounter\<close>. The clock is read once per pushed event; \<open>clock i\<close> is the reading for
  the event stored at index \<open>i\<close>. The status normaliser is imported from another module and
  is a parameter. A backend query that fails makes the whole effect die without a response;
  the model covers the runs in which every query is answered.
\<close>

fun push_sessions ::
  "(nat \<Rightarrow> int) \<Rightarrow> string \<Rightarrow> Session list \<Rightarrow> WorldEvent list \<times> jsnum \<Rightarrow> WorldEvent list \<times> jsnum"
where
  "push_sessions clock dir [] st = st"
| "push_sessions clock dir (s # ss) (evs, offsetCounter) =
     (let c = incr offsetCounter in
      push_sessions clock dir ss
        (evs @ [\<lparr>type = ''session.created'', offset = format_offset c,
                 timestamp = clock (length evs), upToDate = False,
                 payload = SessionRef (s_id s) dir\<rparr>], c))"

fun push_statuses ::
  "(jsval \<Rightarrow> string) \<Rightarrow> (nat \<Rightarrow> int) \<Rightarrow> (string \<times> jsval) list \<Rightarrow>
   WorldEvent list \<times> jsnum \<Rightarrow> WorldEvent list \<times> jsnum"
where
  "push_statuses normalizeBackendStatus clock [] st = st"
| "push_statuses normalizeBackendStatus clock ((sessionId, backendStatus) # rest) (evs, offsetCounter) =
     (let status = normalizeBackendStatus backendStatus;
          c = incr offsetCounter in
      push_statuses normalizeBackendStatus clock rest
        (evs @ [\<lparr>type = ''session.updated'', offset = format_offset c,
                 timestamp = clock (length evs), upToDate = False,
                 payload = SessionStatusRef sessionId status\<rparr>], c))"

fun fetch_servers ::
  "(jsval \<Rightarrow> string) \<Rightarrow> (nat \<Rightarrow> int) \<Rightarrow> DiscoveredServer list \<Rightarrow>
   WorldEvent list \<times> jsnum \<Rightarrow> WorldEvent list \<times> jsnum"
where
  "fetch_servers normalizeBackendStatus clock [] st = st"
| "fetch_servers normalizeBackendStatus clock (server # rest) st =
     fetch_servers normalizeBackendStatus clock rest
       (push_statuses normalizeBackendStatus clock (statusMap server)
          (push_sessions clock (directory server) (sessions server) st))"

text \<open>Reconstruct the last event with \<open>upToDate: true\<close>.\<close>

definition mark_last :: "WorldEvent list \<Rightarrow> WorldEvent list" where
  "mark_last evs =
     (if length evs > 0
      then evs[length evs - 1 := (evs ! (length evs - 1))\<lparr>upToDate := True\<rparr>]
      else evs)"

definition catchUpEvents ::
  "(jsval \<Rightarrow> string) \<Rightarrow> (nat \<Rightarrow> int) \<Rightarrow> DiscoveredServer list \<Rightarrow> EventOffset option \<Rightarrow>
   CatchUpResponse"
where
  "catchUpEvents normalizeBackendStatus clock servers off =
     (if length servers = 0
      then \<lparr>events = [], nextOffset = None, caughtUp = True\<rparr>
      else
        let evs = mark_last (fst (fetch_servers normalizeBackendStatus clock servers
                                    ([], start_counter off)))
        in \<lparr>events = evs,
            nextOffset = (if length evs > 0 then Some (offset (evs ! (length evs - 1))) else None),
            caughtUp = True\<rparr>)"

text \<open>
  A live event as the connection manager hands it to a subscriber, with the clock reading at
  its arrival. The live tail is unbounded; the model maps any finite run of arrivals to the
  events emitted for it.
\<close>

record GlobalEvent =
  g_directory :: string
  g_type :: string
  g_properties :: jsval

definition recognized :: "string \<Rightarrow> bool" where
  "recognized ty = (prefix ''session.'' ty \<or> prefix ''message.'' ty \<or> prefix ''part.'' ty)"

fun tail_loop :: "jsnum \<Rightarrow> (int \<times> GlobalEvent) list \<Rightarrow> WorldEvent list" where
  "tail_loop offsetCounter [] = []"
| "tail_loop offsetCounter ((now, ev) # rest) =
     (if \<not> recognized (g_type ev) then tail_loop offsetCounter rest
      else
        let c = incr offsetCounter in
        \<lparr>type = g_type ev, offset = format_offset c, timestamp = now, upToDate = False,
         payload = Properties (g_properties ev)\<rparr> # tail_loop c rest)"

definition tailEvents :: "EventOffset option \<Rightarrow> (int \<times> GlobalEvent) list \<Rightarrow> WorldEvent list" where
  "tailEvents off live = tail_loop (start_counter off) live"

text \<open>\<open>a || b\<close> on optional offsets: \<open>null\<close> and the empty string are falsy.\<close>

definition or_else :: "EventOffset option \<Rightarrow> EventOffset option \<Rightarrow> EventOffset option" where
  "or_else a b = (case a of None \<Rightarrow> b | Some s \<Rightarrow> if s = [] then b else Some s)"

text \<open>\<open>Stream.scan\<close> emits the initial state and then every accumulated state.\<close>

fun stream_scan :: "'s \<Rightarrow> ('s \<Rightarrow> 'a \<Rightarrow> 's) \<Rightarrow> 'a list \<Rightarrow> 's list" where
  "stream_scan s f [] = [s]"
| "stream_scan s f (x # xs) = s # stream_scan (f s x) f xs"

record ScanState =
  lastOffset :: "EventOffset option"
  event :: "WorldEvent option"

text \<open>
  \<open>resumeEvents\<close> runs the catch-up effect twice: once for the history and once more, after
  the history has been emitted, to learn where the tail starts. Each run queries the
  backends anew, so each has its own view of the servers and its own clock.
\<close>

definition resumeEvents ::
  "(jsval \<Rightarrow> string) \<Rightarrow> (nat \<Rightarrow> int) \<Rightarrow> DiscoveredServer list \<Rightarrow>
   (nat \<Rightarrow> int) \<Rightarrow> DiscoveredServer list \<Rightarrow> EventOffset option \<Rightarrow>
   (int \<times> GlobalEvent) list \<Rightarrow> WorldEvent list"
where
  "resumeEvents normalizeBackendStatus clock1 servers1 clock2 servers2 savedOffset live =
     (let catchUpStream = events (catchUpEvents normalizeBackendStatus clock1 servers1 savedOffset);
          liveStream =
            tailEvents
              (or_else (nextOffset (catchUpEvents normalizeBackendStatus clock2 servers2 savedOffset))
                 savedOffset)
              live;
          scanned =
            stream_scan \<lparr>lastOffset = savedOffset, event = None\<rparr>
              (\<lambda>state ev. \<lparr>lastOffset = Some (offset ev), event = Some ev\<rparr>)
              (catchUpStream @ liveStream)
      in List.map_filter (\<lambda>x. x) (map event scanned))"

section \<open>Fixed-width decimal numerals\<close>

text \<open>The \<open>k\<close> low-order decimal digits of a number, most significant first.\<close>

fun fixed_digits :: "nat \<Rightarrow> nat \<Rightarrow> string" where
  "fixed_digits 0 n = []"
| "fixed_digits (Suc k) n = fixed_digits k (n div 10) @ [digit_char (n mod 10)]"

text \<open>The offsets \<open>n + 1, \<dots>, n + k\<close> as the code formats them.\<close>

definition offsets_after :: "int \<Rightarrow> nat \<Rightarrow> EventOffset list" where
  "offsets_after n k = map (\<lambda>i. format_offset (Num (n + 1 + int i))) [0..<k]"

text \<open>A ten-digit decimal string.\<close>

definition decimal10 :: "string \<Rightarrow> bool" where
  "decimal10 s = (length s = 10 \<and> list_all is_digit s)"

text \<open>The number of events a catch-up synthesises: one per session and one per status entry.\<close>

fun event_count :: "DiscoveredServer list \<Rightarrow> nat" where
  "event_count [] = 0"
| "event_count (server # rest) =
     length (sessions server) + length (statusMap server) + event_count rest"

section \<open>Concrete inputs\<close>

text \<open>
  Stand-ins for what lies outside the modelled code, used only where the model is evaluated
  on a concrete input: a status normaliser, a clock, sessions and servers.
\<close>

definition example_normalize :: "jsval \<Rightarrow> string" where
  "example_normalize b = (case b of JStr s \<Rightarrow> s | _ \<Rightarrow> ''completed'')"

definition example_clock :: "nat \<Rightarrow> int" where
  "example_clock i = 1700000000000 + int i"

definition example_session :: "string \<Rightarrow> Session" where
  "example_session ident =
     \<lparr>s_id = ident, s_title = ''Test'', s_directory = ''/test'', s_parentID = None,
      s_created = 1000, s_updated = 1000\<rparr>"

definition example_server :: "string list \<Rightarrow> (string \<times> jsval) list \<Rightarrow> DiscoveredServer" where
  "example_server ids sts =
     \<lparr>port = 4096, directory = ''/test'', sessions = map example_session ids, statusMap = sts\<rparr>"

definition example_live :: "string \<Rightarrow> int \<times> GlobalEvent" where
  "example_live ty =
     (1700000000500, \<lparr>g_directory = ''/test'', g_type = ty, g_properties = JObj []\<rparr>)"

text \<open>One backend with two sessions and one status entry, queried from offset 42.\<close>

definition example_response :: CatchUpResponse where
  "example_response =
     catchUpEvents example_normalize example_clock
       [example_server [''ses_a'', ''ses_b''] [(''ses_a'', JStr ''running'')]]
       (Some ''0000000042'')"

section \<open>Cursor store\<close>

record StreamCursor =
  cursor_offset :: EventOffset
  cursor_timestamp :: int
  projectKey :: string

text \<open>
  The \<open>cursors\<close> table: \<open>project_key\<close> is \<open>UNIQUE\<close>, \<open>id\<close> is \<open>AUTOINCREMENT\<close>, so the
  database also remembers the largest id it has handed out.
\<close>

record CursorRow =
  row_id :: nat
  project_key :: string
  row_offset :: string
  row_timestamp :: int
  updated_at :: int

record CursorDb =
  rows :: "CursorRow list"
  last_id :: nat

definition empty_db :: CursorDb where
  "empty_db = \<lparr>rows = [], last_id = 0\<rparr>"

text \<open>
  What the database client does with one statement is decided outside the program: it
  either executes it or rejects with some error, whose rendering is carried along.
\<close>

datatype io = Executes | Rejects string

datatype error = Error string

text \<open>
  \<open>INSERT \<dots> ON CONFLICT(project_key) DO UPDATE SET offset, timestamp, updated_at\<close>, with
  \<open>unixepoch()\<close> read as \<open>now\<close>.
\<close>

definition set_row :: "int \<Rightarrow> StreamCursor \<Rightarrow> CursorRow \<Rightarrow> CursorRow" where
  "set_row now cursor r =
     r\<lparr>row_offset := cursor_offset cursor, row_timestamp := cursor_timestamp cursor,
       updated_at := now\<rparr>"

definition upsert_row :: "int \<Rightarrow> StreamCursor \<Rightarrow> CursorDb \<Rightarrow> CursorDb" where
  "upsert_row now cursor db =
     (if projectKey cursor \<in> set (map project_key (rows db))
      then db\<lparr>rows :=
             map (\<lambda>r. if project_key r = projectKey cursor then set_row now cursor r else r)
               (rows db)\<rparr>
      else \<lparr>rows = rows db @
               [\<lparr>row_id = last_id db + 1, project_key = projectKey cursor,
                 row_offset = cursor_offset cursor, row_timestamp = cursor_timestamp cursor,
                 updated_at = now\<rparr>],
            last_id = last_id db + 1\<rparr>)"

definition saveCursor :: "io \<Rightarrow> int \<Rightarrow> StreamCursor \<Rightarrow> CursorDb \<Rightarrow> (error + unit) \<times> CursorDb" where
  "saveCursor outcome now cursor db =
     (case outcome of
        Executes \<Rightarrow> (Inr (), upsert_row now cursor db)
      | Rejects e \<Rightarrow> (Inl (Error (''Failed to save cursor: '' @ e)), db))"

text \<open>\<open>SELECT offset, timestamp, project_key FROM cursors WHERE project_key = ?\<close>\<close>

definition loadCursor :: "io \<Rightarrow> string \<Rightarrow> CursorDb \<Rightarrow> error + StreamCursor option" where
  "loadCursor outcome key db =
     (case outcome of
        Executes \<Rightarrow>
          (let result = filter (\<lambda>r. project_key r = key) (rows db) in
           if length result = 0 then Inr None
           else
             let row = result ! 0 in
             Inr (Some \<lparr>cursor_offset = row_offset row, cursor_timestamp = row_timestamp row,
                        projectKey = project_key row\<rparr>))
      | Rejects e \<Rightarrow> Inl (Error (''Failed to load cursor: '' @ e)))"

text \<open>A run of successful saves.\<close>

fun save_all :: "int \<Rightarrow> StreamCursor list \<Rightarrow> CursorDb \<Rightarrow> CursorDb" where
  "save_all now [] db = db"
| "save_all now (c # cs) db = save_all now cs (snd (saveCursor Executes now c db))"

definition example_cursor :: "EventOffset \<Rightarrow> StreamCursor" where
  "example_cursor off =
     \<lparr>cursor_offset = off, cursor_timestamp = 1700000000000, projectKey = ''/test''\<rparr>"

section \<open>Routing events to the store\<close>

text \<open>
  The store is seen through the calls made on it, in order. An event from an auxiliary
  source carries its origin, its type and an untyped payload.
\<close>

datatype store_call =
    UpsertSession jsval
  | UpsertMessage jsval
  | UpsertPart jsval
  | UpdateStatus jsval jsval

record SourceEvent =
  source :: string
  se_type :: string
  data :: jsval

text \<open>
  \<open>routeEventToStore\<close>. The guards \<open>x?.id\<close> never raise; reading \<open>.part\<close> of the payload
  and destructuring the payload of a status event raise a \<open>TypeError\<close> when the payload is
  \<open>null\<close> or \<open>undefined\<close>.
\<close>

definition routeEventToStore :: "SourceEvent \<Rightarrow> js_error + store_call list" where
  "routeEventToStore ev =
     (let ty = se_type ev; d = data ev in
      if ty = ''session.created'' \<or> ty = ''session.updated'' then
        Inr (if truthy (opt_prop d ''id'') then [UpsertSession d] else [])
      else if ty = ''message.created'' \<or> ty = ''message.updated'' then
        Inr (if truthy (opt_prop d ''id'')
             then UpsertMessage d #
                  (if truthy (opt_prop d ''sessionID'')
                   then [UpdateStatus (opt_prop d ''sessionID'') (JStr ''running'')] else [])
             else [])
      else if ty = ''part.created'' \<or> ty = ''part.updated'' \<or> ty = ''message.part.updated'' then
        (case (if ty = ''message.part.updated'' then get_prop d ''part'' else Inr d) of
           Inl e \<Rightarrow> Inl e
         | Inr partData \<Rightarrow>
             Inr (if truthy (opt_prop partData ''id'')
                  then UpsertPart partData #
                       (if truthy (opt_prop partData ''sessionID'')
                        then [UpdateStatus (opt_prop partData ''sessionID'') (JStr ''running'')]
                        else [])
                  else []))
      else if ty = ''session.status'' then
        (case get_prop d ''sessionID'' of
           Inl e \<Rightarrow> Inl e
         | Inr sessionID \<Rightarrow>
             let status = opt_prop d ''status'' in
             Inr (if truthy sessionID \<and> truthy status then [UpdateStatus sessionID status] else []))
      else Inr [])"

text \<open>
  \<open>WorldSSE.handleEvent\<close>, the connection manager's own handler for events of the primary
  feed (its logging callback is left out).
\<close>

record SSEEvent =
  sse_type :: string
  properties :: jsval

definition handleEvent :: "SSEEvent \<Rightarrow> js_error + store_call list" where
  "handleEvent ev =
     (let ty = sse_type ev; p = properties ev in
      if ty = ''session.created'' \<or> ty = ''session.updated'' then
        Inr (if truthy (opt_prop p ''id'') then [UpsertSession p] else [])
      else if ty = ''message.created'' \<or> ty = ''message.updated'' then
        Inr (if truthy (opt_prop p ''id'') then [UpsertMessage p] else [])
      else if ty = ''part.created'' \<or> ty = ''part.updated'' then
        Inr (if truthy (opt_prop p ''id'') then [UpsertPart p] else [])
      else if ty = ''session.status'' then
        (case get_prop p ''sessionID'' of
           Inl e \<Rightarrow> Inl e
         | Inr sessionID \<Rightarrow>
             let status = opt_prop p ''status'' in
             Inr (if truthy sessionID \<and> truthy status then [UpdateStatus sessionID status] else []))
      else Inr [])"

text \<open>The implicit liveness signal for a payload.\<close>

definition running_signal :: "jsval \<Rightarrow> store_call list" where
  "running_signal p =
     (if truthy (opt_prop p ''sessionID'')
      then [UpdateStatus (opt_prop p ''sessionID'') (JStr ''running'')] else [])"

definition example_message :: jsval where
  "example_message =
     JObj [(''id'', JStr ''msg-1''), (''sessionID'', JStr ''ses-1''), (''role'', JStr ''assistant'')]"

definition example_part :: jsval where
  "example_part =
     JObj [(''id'', JStr ''part-1''), (''sessionID'', JStr ''ses-1''), (''messageID'', JStr ''msg-1''),
           (''type'', JStr ''text'')]"

section \<open>Merging auxiliary event sources\<close>















section \<open>Connection supervision\<close>

record WorldSSEConfig =
  serverUrl :: string
  discoveryIntervalMs :: nat
  autoReconnect :: bool
  maxReconnectAttempts :: nat

text \<open>The constructor fills every absent option with its default (\<open>??\<close>).\<close>

definition make_config ::
  "string option \<Rightarrow> nat option \<Rightarrow> bool option \<Rightarrow> nat option \<Rightarrow> WorldSSEConfig"
where
  "make_config url interval reconnect attempts =
     \<lparr>serverUrl = (case url of None \<Rightarrow> '''' | Some u \<Rightarrow> u),
      discoveryIntervalMs = (case interval of None \<Rightarrow> 5000 | Some i \<Rightarrow> i),
      autoReconnect = (case reconnect of None \<Rightarrow> True | Some b \<Rightarrow> b),
      maxReconnectAttempts = (case attempts of None \<Rightarrow> 10 | Some n \<Rightarrow> n)\<rparr>"

text \<open>
  What the pass through the body of the connection loop meets: the stream ends normally;
  the bootstrap fetch fails; or the bootstrap succeeds, events are streamed, and the stream
  then fails.
\<close>

datatype attempt = StreamEnds | BootstrapFails | StreamFails

text \<open>
  The \<open>catch\<close> block of the loop, entered with the current value of \<open>attempts\<close>: the counter
  is incremented; the loop is left (\<open>None\<close>) when reconnection is switched off or the counter
  has reached the maximum; otherwise the block sleeps for the delay it returns and the loop
  goes round again.
\<close>

definition catch_block :: "WorldSSEConfig \<Rightarrow> nat \<Rightarrow> nat \<times> nat option" where
  "catch_block cfg attempts =
     (let attempts' = attempts + 1 in
      if \<not> autoReconnect cfg \<or> attempts' \<ge> maxReconnectAttempts cfg
      then (attempts', None)
      else (attempts', Some (min (1000 * 2 ^ attempts') 30000)))"

text \<open>
  How the connection task ends. The task is a generator run by \<open>Effect.gen\<close>, and the
  bootstrap and the event stream are effects that it yields. A failure of a yielded effect
  is not thrown into the generator: the generator is not resumed, and the fiber ends with
  that failure. The \<open>catch\<close> block is therefore entered only by an exception that a statement
  of the \<open>try\<close> block throws itself, and none does (an insertion into a set, and the two
  yields). So the body of the loop runs at most once, with \<open>attempts = 0\<close>:

    \<^item> \<open>NotEntered\<close>: the loop condition is false, and the task runs to its end at once;
    \<^item> \<open>Ended\<close>: the stream ends normally, \<open>break\<close> leaves the loop, and the task runs to its
      end;
    \<^item> \<open>FiberFailed\<close>: the bootstrap or the stream fails, and the fiber ends there: neither
      the \<open>catch\<close> block nor the statements after the loop are run.
\<close>

datatype task_end = NotEntered | Ended | FiberFailed

definition connection_task :: "WorldSSEConfig \<Rightarrow> bool \<Rightarrow> attempt \<Rightarrow> task_end" where
  "connection_task cfg running outcome =
     (let attempts = 0 in
      if running \<and> attempts < maxReconnectAttempts cfg then
        (case outcome of
           StreamEnds \<Rightarrow> Ended
         | BootstrapFails \<Rightarrow> FiberFailed
         | StreamFails \<Rightarrow> FiberFailed)
      else NotEntered)"

record SSEState =
  connectedPorts :: "nat set"
  connectionFibers :: "nat set"

text \<open>
  \<open>connectToServer\<close>, with the tables as they are once the task has ended. Nothing happens
  when a task for the port is registered. Otherwise the task is forked, and it runs inside
  \<open>runFork\<close> up to its first asynchronous step; the fiber is registered when \<open>runFork\<close> has
  returned.

    \<^item> \<open>NotEntered\<close>: the task ends inside \<open>runFork\<close>: both deletions run first, and the
      registration after them puts the port back into the table of tasks;
    \<^item> \<open>Ended\<close>: the port is added, the fiber is registered, and at the end of the stream
      both deletions run;
    \<^item> \<open>FiberFailed\<close>: the port is added, the fiber is registered, and no deletion runs.
\<close>

definition connectToServer ::
  "WorldSSEConfig \<Rightarrow> nat \<Rightarrow> bool \<Rightarrow> attempt \<Rightarrow> SSEState \<Rightarrow> SSEState"
where
  "connectToServer cfg p running outcome st =
     (if p \<in> connectionFibers st then st
      else
        case connection_task cfg running outcome of
          NotEntered \<Rightarrow>
            st\<lparr>connectedPorts := connectedPorts st - {p},
               connectionFibers := insert p (connectionFibers st - {p})\<rparr>
        | Ended \<Rightarrow>
            st\<lparr>connectedPorts := insert p (connectedPorts st) - {p},
               connectionFibers := insert p (connectionFibers st) - {p}\<rparr>
        | FiberFailed \<Rightarrow>
            st\<lparr>connectedPorts := insert p (connectedPorts st),
               connectionFibers := insert p (connectionFibers st)\<rparr>)"

text \<open>
  The ports for which a pass of the discovery loop calls \<open>connectToServer\<close>, given the
  (distinct) ports of the servers it has discovered: those not in the table of connected
  ports.
\<close>

definition discovery_connects :: "nat list \<Rightarrow> SSEState \<Rightarrow> nat list" where
  "discovery_connects ports st = filter (\<lambda>p. p \<notin> connectedPorts st) ports"


section \<open>World store\<close>

text \<open>
  Modelled from the spec: the \<open>WorldStore\<close> class. Its source file is not among the
  sources; only its tests and its callers are. The model follows the specification's data
  model (section 3) and component design (section 4.1): three collections kept sorted
  ascending by id, a status map, bulk replacement that sorts, upsert by binary search, and a
  derived view that is a pure function of the four. Notification of subscribers is left out.
  The entity records follow the domain types; every field the specification calls optional
  is an option.
\<close>

record Tokens =
  tok_input :: "nat option"
  tok_output :: "nat option"
  tok_reasoning :: "nat option"
  tok_cache_read :: "nat option"
  tok_cache_write :: "nat option"

record Limits =
  limit_context :: nat
  limit_output :: nat

record Model =
  model_name :: string
  limits :: "Limits option"

record Message =
  m_id :: string
  m_sessionID :: string
  m_role :: string
  m_parentID :: "string option"
  m_created :: int
  m_completed :: "int option"
  m_finish :: "string option"
  m_tokens :: "Tokens option"
  m_model :: "Model option"
  m_agent :: "string option"

record Part =
  p_id :: string
  p_sessionID :: string
  p_messageID :: string
  p_type :: string
  p_content :: "string option"
  p_text :: "string option"
  p_tool :: "string option"
  p_state_status :: "string option"
  p_start :: "int option"
  p_end :: "int option"

datatype ConnectionStatus = Disconnected | Connecting | Connected | Errored

text \<open>
  Modelled from the spec: the raw state of \<open>WorldStore\<close>, three collections, the status
  map and the connection status, all empty at construction.
\<close>

record WorldStoreData =
  data_sessions :: "Session list"
  data_messages :: "Message list"
  data_parts :: "Part list"
  data_status :: "string \<rightharpoonup> string"
  data_connectionStatus :: ConnectionStatus

definition empty_store :: WorldStoreData where
  "empty_store =
     \<lparr>data_sessions = [], data_messages = [], data_parts = [], data_status = Map.empty,
      data_connectionStatus = Disconnected\<rparr>"

text \<open>
  Modelled from the spec: the binary-search locate step of \<open>WorldStore\<close>'s upserts. It
  searches \<open>xs[lo..hi)\<close> for an id and returns whether it was found, with the index where
  it is or where it belongs.
\<close>

function bsearch :: "('a \<Rightarrow> string) \<Rightarrow> 'a list \<Rightarrow> string \<Rightarrow> nat \<Rightarrow> nat \<Rightarrow> bool \<times> nat" where
  "bsearch key xs k lo hi =
     (if lo < hi then
        let mid = (lo + hi) div 2 in
        if key (xs ! mid) = k then (True, mid)
        else if key (xs ! mid) < k then bsearch key xs k (mid + 1) hi
        else bsearch key xs k lo mid
      else (False, lo))"
  by pat_completeness auto
termination
  by (relation "measure (\<lambda>(key, xs, k, lo, hi). hi - lo)") auto

declare bsearch.simps [simp del]

text \<open>
  Modelled from the spec: upsert in \<open>WorldStore\<close>, which replaces the entity with the same
  id if the search finds one and otherwise inserts at the position found.
\<close>

definition upsert :: "('a \<Rightarrow> string) \<Rightarrow> 'a \<Rightarrow> 'a list \<Rightarrow> 'a list" where
  "upsert key x xs =
     (case bsearch key xs (key x) 0 (length xs) of
        (True, i) \<Rightarrow> xs[i := x]
      | (False, i) \<Rightarrow> take i xs @ x # drop i xs)"

text \<open>
  Modelled from the spec: the mutators of \<open>WorldStore\<close>. The bulk setters replace a
  collection and sort it by id; the upserts go through the binary search; \<open>updateStatus\<close>
  writes one entry of the status map.
\<close>

definition setSessions :: "Session list \<Rightarrow> WorldStoreData \<Rightarrow> WorldStoreData" where
  "setSessions ss st = st\<lparr>data_sessions := sort_key s_id ss\<rparr>"

definition setMessages :: "Message list \<Rightarrow> WorldStoreData \<Rightarrow> WorldStoreData" where
  "setMessages ms st = st\<lparr>data_messages := sort_key m_id ms\<rparr>"

definition setParts :: "Part list \<Rightarrow> WorldStoreData \<Rightarrow> WorldStoreData" where
  "setParts ps st = st\<lparr>data_parts := sort_key p_id ps\<rparr>"

definition setStatus :: "(string \<rightharpoonup> string) \<Rightarrow> WorldStoreData \<Rightarrow> WorldStoreData" where
  "setStatus m st = st\<lparr>data_status := m\<rparr>"

definition setConnectionStatus :: "ConnectionStatus \<Rightarrow> WorldStoreData \<Rightarrow> WorldStoreData" where
  "setConnectionStatus c st = st\<lparr>data_connectionStatus := c\<rparr>"

definition upsertSession :: "Session \<Rightarrow> WorldStoreData \<Rightarrow> WorldStoreData" where
  "upsertSession s st = st\<lparr>data_sessions := upsert s_id s (data_sessions st)\<rparr>"

definition upsertMessage :: "Message \<Rightarrow> WorldStoreData \<Rightarrow> WorldStoreData" where
  "upsertMessage m st = st\<lparr>data_messages := upsert m_id m (data_messages st)\<rparr>"

definition upsertPart :: "Part \<Rightarrow> WorldStoreData \<Rightarrow> WorldStoreData" where
  "upsertPart p st = st\<lparr>data_parts := upsert p_id p (data_parts st)\<rparr>"

definition updateStatus :: "string \<Rightarrow> string \<Rightarrow> WorldStoreData \<Rightarrow> WorldStoreData" where
  "updateStatus sid v st = st\<lparr>data_status := (data_status st)(sid \<mapsto> v)\<rparr>"

subsection \<open>The derived view\<close>

record EnrichedMessage =
  e_message :: Message
  parts :: "Part list"
  isStreaming :: bool

record EnrichedSession =
  e_session :: Session
  e_status :: string
  e_messages :: "EnrichedMessage list"
  isActive :: bool
  contextUsagePercent :: rat

record WorldState =
  w_sessions :: "EnrichedSession list"
  activeSessionCount :: nat
  activeSession :: "EnrichedSession option"
  connectionStatus :: ConnectionStatus
  lastUpdated :: int

text \<open>
  Modelled from the spec: \<open>EnrichedMessage\<close>, a message with its parts (those whose
  \<open>messageID\<close> is the message's id, in part-id order) and \<open>isStreaming\<close>, true exactly for
  an assistant message without \<open>time.completed\<close>.
\<close>

definition enrich_message :: "Part list \<Rightarrow> Message \<Rightarrow> EnrichedMessage" where
  "enrich_message ps m =
     \<lparr>e_message = m,
      parts = filter (\<lambda>p. p_messageID p = m_id m) ps,
      isStreaming = (m_role m = ''assistant'' \<and> m_completed m = None)\<rparr>"

text \<open>
  Modelled from the spec: the context-usage numerator of \<open>WorldStore\<close>, the sum of every
  token field that is defined, an absent one counting as 0.
\<close>

definition or0 :: "nat option \<Rightarrow> nat" where
  "or0 x = (case x of None \<Rightarrow> 0 | Some n \<Rightarrow> n)"

definition token_total :: "Tokens \<Rightarrow> nat" where
  "token_total t =
     or0 (tok_input t) + or0 (tok_output t) + or0 (tok_reasoning t)
       + or0 (tok_cache_read t) + or0 (tok_cache_write t)"

text \<open>
  Modelled from the spec: the rounding of the percentage to two decimals (halves upwards,
  in exact arithmetic), and the usage of one message: 0 unless it carries token counts and a
  model with a positive context limit.
\<close>

definition round2 :: "rat \<Rightarrow> rat" where
  "round2 x = of_int (round (x * 100)) / 100"

definition usage_of :: "Message \<Rightarrow> rat" where
  "usage_of m =
     (case m_tokens m of
        None \<Rightarrow> 0
      | Some t \<Rightarrow>
          (case m_model m of
             None \<Rightarrow> 0
           | Some md \<Rightarrow>
               (case limits md of
                  None \<Rightarrow> 0
                | Some l \<Rightarrow>
                    if limit_context l = 0 then 0
                    else round2 (100 * of_nat (token_total t) / of_nat (limit_context l)))))"

definition completed_assistant :: "Message \<Rightarrow> bool" where
  "completed_assistant m = (m_role m = ''assistant'' \<and> m_completed m \<noteq> None)"

text \<open>
  Modelled from the spec: \<open>contextUsagePercent\<close> of a session, taken from its most recent
  completed assistant message, which is the last one in id order, and 0 without one.
\<close>

definition context_usage :: "Message list \<Rightarrow> rat" where
  "context_usage msgs =
     (case List.find completed_assistant (rev msgs) of None \<Rightarrow> 0 | Some m \<Rightarrow> usage_of m)"

text \<open>
  Modelled from the spec: \<open>EnrichedSession\<close>, a session with its status (from the status
  map, \<open>completed\<close> by default), its enriched messages (those whose \<open>sessionID\<close> is the
  session's id, in message-id order), \<open>isActive\<close> and \<open>contextUsagePercent\<close>.
\<close>

definition enrich_session :: "WorldStoreData \<Rightarrow> Session \<Rightarrow> EnrichedSession" where
  "enrich_session st s =
     (let msgs = filter (\<lambda>m. m_sessionID m = s_id s) (data_messages st);
          st_status = (case data_status st (s_id s) of None \<Rightarrow> ''completed'' | Some v \<Rightarrow> v)
      in \<lparr>e_session = s,
          e_status = st_status,
          e_messages = map (enrich_message (data_parts st)) msgs,
          isActive = (st_status = ''running''),
          contextUsagePercent = context_usage msgs\<rparr>)"

text \<open>
  Modelled from the spec: \<open>getState\<close> of \<open>WorldStore\<close>. Sessions are listed by the
  recency key \<open>max(session.time.updated, max message.time.created)\<close> in descending order,
  ties by id ascending; the clock reading for \<open>lastUpdated\<close> is an input.
\<close>

definition recency :: "EnrichedSession \<Rightarrow> int" where
  "recency e = foldl max (s_updated (e_session e)) (map (\<lambda>em. m_created (e_message em)) (e_messages e))"

definition getState :: "int \<Rightarrow> WorldStoreData \<Rightarrow> WorldState" where
  "getState now st =
     (let enriched =
            sort_key (\<lambda>e. (- recency e, s_id (e_session e)))
              (map (enrich_session st) (data_sessions st))
      in \<lparr>w_sessions = enriched,
          activeSessionCount = length (filter isActive enriched),
          activeSession = List.find isActive enriched,
          connectionStatus = data_connectionStatus st,
          lastUpdated = now\<rparr>)"

text \<open>A sequence of upsert calls, applied in order.\<close>

datatype upsert_call = UpSession Session | UpMessage Message | UpPart Part

fun apply_call :: "upsert_call \<Rightarrow> WorldStoreData \<Rightarrow> WorldStoreData" where
  "apply_call (UpSession s) st = upsertSession s st"
| "apply_call (UpMessage m) st = upsertMessage m st"
| "apply_call (UpPart p) st = upsertPart p st"

fun apply_calls :: "upsert_call list \<Rightarrow> WorldStoreData \<Rightarrow> WorldStoreData" where
  "apply_calls [] st = st"
| "apply_calls (c # cs) st = apply_calls cs (apply_call c st)"

text \<open>
  The entities a sequence of upserts ends with: for each id, the payload applied last.
\<close>

fun final_entities :: "('a \<Rightarrow> string) \<Rightarrow> 'a list \<Rightarrow> 'a list" where
  "final_entities key [] = []"
| "final_entities key (x # xs) =
     (if key x \<in> set (map key xs) then final_entities key xs else x # final_entities key xs)"

definition session_calls :: "upsert_call list \<Rightarrow> Session list" where
  "session_calls cs = concat (map (\<lambda>c. case c of UpSession s \<Rightarrow> [s] | _ \<Rightarrow> []) cs)"

definition message_calls :: "upsert_call list \<Rightarrow> Message list" where
  "message_calls cs = concat (map (\<lambda>c. case c of UpMessage m \<Rightarrow> [m] | _ \<Rightarrow> []) cs)"

definition part_calls :: "upsert_call list \<Rightarrow> Part list" where
  "part_calls cs = concat (map (\<lambda>c. case c of UpPart p \<Rightarrow> [p] | _ \<Rightarrow> []) cs)"

text \<open>How often a part shows up in the enriched view, over all sessions and messages.\<close>

definition occurrences :: "Part \<Rightarrow> WorldState \<Rightarrow> nat" where
  "occurrences p w =
     sum_list (map (\<lambda>e. sum_list (map (\<lambda>em. count_list (parts em) p) (e_messages e)))
                 (w_sessions w))"

text \<open>Entities for concrete evaluations.\<close>

definition sample_session :: "string \<Rightarrow> int \<Rightarrow> Session" where
  "sample_session ident t =
     \<lparr>s_id = ident, s_title = ''Test'', s_directory = ''/test'', s_parentID = None,
      s_created = t, s_updated = t\<rparr>"

definition sample_message :: "string \<Rightarrow> string \<Rightarrow> string \<Rightarrow> int \<Rightarrow> Message" where
  "sample_message ident sid role t =
     \<lparr>m_id = ident, m_sessionID = sid, m_role = role, m_parentID = None, m_created = t,
      m_completed = None, m_finish = None, m_tokens = None, m_model = None, m_agent = None\<rparr>"

definition sample_part :: "string \<Rightarrow> string \<Rightarrow> string \<Rightarrow> Part" where
  "sample_part ident mid txt =
     \<lparr>p_id = ident, p_sessionID = ''ses-1'', p_messageID = mid, p_type = ''text'',
      p_content = Some txt, p_text = None, p_tool = None, p_state_status = None,
      p_start = None, p_end = None\<rparr>"

definition sample_model :: Model where
  "sample_model =
     \<lparr>model_name = ''claude-4-sonnet'',
      limits = Some \<lparr>limit_context = 200000, limit_output = 16384\<rparr>\<rparr>"

definition sample_calls :: "upsert_call list" where
  "sample_calls =
     [UpPart (sample_part ''part-1'' ''msg-1'' ''H''),
      UpSession (sample_session ''ses-2'' 2000),
      UpMessage (sample_message ''msg-1'' ''ses-1'' ''assistant'' 1500),
      UpPart (sample_part ''part-1'' ''msg-1'' ''Hello''),
      UpSession (sample_session ''ses-1'' 1000)]"

text \<open>The completed assistant messages used by the repository's two context-usage tests.\<close>

definition usage_test_message :: "nat option \<Rightarrow> nat option \<Rightarrow> Message" where
  "usage_test_message reasoningTokens cacheWrite =
     (sample_message ''msg-1'' ''ses-1'' ''assistant'' 1000)
       \<lparr>m_completed := Some 1000,
        m_tokens := Some \<lparr>tok_input = Some 5000, tok_output = Some 500,
                           tok_reasoning = reasoningTokens, tok_cache_read = Some 1000,
                           tok_cache_write = cacheWrite\<rparr>,
        m_model := Some sample_model\<rparr>"

definition usage_test_store :: "Message \<Rightarrow> WorldStoreData" where
  "usage_test_store m = setMessages [m] (setSessions [sample_session ''ses-1'' 1000] empty_store)"

section \<open>Offsets are fixed-width decimal numerals\<close>

lemma length_fixed_digits [simp]: "length (fixed_digits k n) = k"
  by (induction k arbitrary: n) auto

lemma padStart_replicate: "padStart n c s = replicate (n - length s) c @ s"
proof (induction n c s rule: padStart.induct)
  case (1 n c s)
  show ?case
  proof (cases "length s < n")
    case True
    then have "padStart n c s = replicate (n - Suc (length s)) c @ (c # s)"
      using 1 by (simp add: padStart.simps [of n c s])
    also have "\<dots> = replicate (Suc (n - Suc (length s))) c @ s"
      by (simp add: replicate_append_same)
    also have "Suc (n - Suc (length s)) = n - length s"
      using True by simp
    finally show ?thesis .
  next
    case False
    then show ?thesis by (simp add: padStart.simps [of n c s])
  qed
qed

lemma digit_char_code: "d < 10 \<Longrightarrow> (of_char (digit_char d) :: nat) = 48 + d"
proof -
  assume "d < 10"
  then have "d \<in> {0, 1, 2, 3, 4, 5, 6, 7, 8, 9}" by auto
  then show ?thesis by (auto simp: digit_char_def)
qed

lemma digit_char_0: "digit_char 0 = CHR ''0''"
  by (simp add: digit_char_def)

lemma fixed_digits_zero: "fixed_digits k 0 = replicate k (CHR ''0'')"
  by (induction k) (simp_all add: digit_char_0 replicate_append_same)

lemma nat_digits_fixed:
  "0 < k \<Longrightarrow> n < 10 ^ k \<Longrightarrow>
   replicate (k - length (nat_digits n)) (CHR ''0'') @ nat_digits n = fixed_digits k n"
proof (induction k arbitrary: n)
  case 0
  then show ?case by simp
next
  case (Suc k)
  show ?case
  proof (cases "n < 10")
    case True
    then show ?thesis
      by (simp add: nat_digits.simps [of n] fixed_digits_zero)
  next
    case False
    then have k: "0 < k" using Suc.prems by (cases k) auto
    have d: "n div 10 < 10 ^ k" using Suc.prems by (simp add: less_mult_imp_div_less mult.commute)
    have ih: "replicate (k - length (nat_digits (n div 10))) (CHR ''0'') @ nat_digits (n div 10)
      = fixed_digits k (n div 10)"
      by (rule Suc.IH [OF k d])
    show ?thesis
      using False ih by (simp add: nat_digits.simps [of n])
  qed
qed

lemma format_offset_fixed:
  assumes "0 \<le> m" "m < 10 ^ 10"
  shows "format_offset (Num m) = fixed_digits 10 (nat m)"
proof -
  have "nat m < 10 ^ 10" using assms by (simp add: nat_less_iff)
  then have "replicate (10 - length (nat_digits (nat m))) (CHR ''0'') @ nat_digits (nat m)
      = fixed_digits 10 (nat m)"
    by (intro nat_digits_fixed) simp_all
  then show ?thesis
    using assms by (simp add: format_offset_def number_to_string_def padStart_replicate)
qed

lemma digit_char_less: "a < b \<Longrightarrow> b < 10 \<Longrightarrow> digit_char a < digit_char b"
  by (simp add: less_char_def digit_char_code)

lemma less_append_same_length:
  fixes xs ys :: "'a::linorder list"
  assumes "xs < ys" "length xs = length ys"
  shows "xs @ us < ys @ vs"
  using assms unfolding list_less_def by (simp add: lexord_sufI)

lemma less_append_same_prefix:
  fixes xs :: "'a::linorder list"
  shows "xs @ us < xs @ vs \<longleftrightarrow> us < vs"
  unfolding list_less_def by (simp add: lexord_same_pref_iff)

lemma fixed_digits_mono:
  "a < b \<Longrightarrow> b < 10 ^ k \<Longrightarrow> fixed_digits k a < fixed_digits k b"
proof (induction k arbitrary: a b)
  case 0
  then show ?case by simp
next
  case (Suc k)
  have le: "a div 10 \<le> b div 10" using Suc.prems(1) by (simp add: div_le_mono)
  have bd: "b div 10 < 10 ^ k" using Suc.prems(2) by (simp add: less_mult_imp_div_less mult.commute)
  show ?case
  proof (cases "a div 10 < b div 10")
    case True
    then have "fixed_digits k (a div 10) < fixed_digits k (b div 10)"
      using Suc.IH bd by blast
    then show ?thesis
      by (simp add: less_append_same_length)
  next
    case False
    then have eq: "a div 10 = b div 10" using le by simp
    have "a mod 10 < b mod 10"
      using Suc.prems(1) eq by (metis div_mult_mod_eq nat_add_left_cancel_less)
    then have "digit_char (a mod 10) < digit_char (b mod 10)"
      by (intro digit_char_less) simp_all
    then show ?thesis
      by (simp add: eq less_append_same_prefix)
  qed
qed

lemma fixed_digits_less_iff:
  assumes "a < 10 ^ k" "b < 10 ^ k"
  shows "fixed_digits k a < fixed_digits k b \<longleftrightarrow> a < b"
proof
  assume l: "fixed_digits k a < fixed_digits k b"
  show "a < b"
  proof (rule ccontr)
    assume "\<not> a < b"
    then consider "a = b" | "b < a" by linarith
    then show False
    proof cases
      case 1
      then show False using l by simp
    next
      case 2
      then have "fixed_digits k b < fixed_digits k a"
        using assms(1) by (rule fixed_digits_mono)
      then show False using l by simp
    qed
  qed
next
  assume "a < b"
  then show "fixed_digits k a < fixed_digits k b"
    using assms(2) by (rule fixed_digits_mono)
qed

lemma format_offset_less_iff:
  assumes "0 \<le> a" "a < 10 ^ 10" "0 \<le> b" "b < 10 ^ 10"
  shows "format_offset (Num a) < format_offset (Num b) \<longleftrightarrow> a < b"
proof -
  have "nat a < 10 ^ 10" "nat b < 10 ^ 10" using assms by (simp_all add: nat_less_iff)
  then have "fixed_digits 10 (nat a) < fixed_digits 10 (nat b) \<longleftrightarrow> nat a < nat b"
    by (rule fixed_digits_less_iff)
  then show ?thesis
    using assms by (auto simp: format_offset_fixed)
qed

lemma is_digit_digit_char: "d < 10 \<Longrightarrow> is_digit (digit_char d)"
  by (simp add: is_digit_def less_eq_char_def digit_char_code)

lemma digit_val_digit_char: "d < 10 \<Longrightarrow> digit_val (digit_char d) = d"
  by (simp add: digit_val_def digit_char_code)

lemma fixed_digits_all_digits: "c \<in> set (fixed_digits k n) \<Longrightarrow> is_digit c"
  by (induction k arbitrary: n) (auto simp: is_digit_digit_char)

lemma digits_val_snoc: "digits_val (ds @ [c]) = 10 * digits_val ds + digit_val c"
  by (simp add: digits_val_def)

lemma digits_val_fixed: "n < 10 ^ k \<Longrightarrow> digits_val (fixed_digits k n) = n"
proof (induction k arbitrary: n)
  case 0
  then show ?case by (simp add: digits_val_def)
next
  case (Suc k)
  have "n div 10 < 10 ^ k" using Suc.prems by (simp add: less_mult_imp_div_less mult.commute)
  then have "digits_val (fixed_digits k (n div 10)) = n div 10" by (rule Suc.IH)
  then show ?case by (simp add: digits_val_snoc digit_val_digit_char)
qed

lemma is_digit_not_space: "is_digit c \<Longrightarrow> \<not> is_space c"
  by (auto simp: is_digit_def is_space_def less_eq_char_def)

lemma is_digit_not_sign: "is_digit c \<Longrightarrow> c \<noteq> CHR ''-'' \<and> c \<noteq> CHR ''+''"
  by (auto simp: is_digit_def less_eq_char_def)

lemma parseInt_digits:
  assumes "ds \<noteq> []" "\<forall>c\<in>set ds. is_digit c"
  shows "parseInt ds = Num (int (digits_val ds))"
proof -
  obtain c cs where ds: "ds = c # cs" using assms(1) by (cases ds) auto
  have c: "is_digit c" using assms(2) ds by simp
  have t: "dropWhile is_space ds = ds" using c ds by (simp add: is_digit_not_space)
  have tw: "takeWhile is_digit cs = cs" using assms(2) ds by (simp add: takeWhile_eq_all_conv)
  show ?thesis
    unfolding parseInt_def t Let_def
    using c is_digit_not_sign [OF c] by (simp add: ds tw)
qed

lemma parseInt_format_offset:
  assumes "0 \<le> m" "m < 10 ^ 10"
  shows "parseInt (format_offset (Num m)) = Num m"
proof -
  have b: "nat m < 10 ^ 10" using assms by (simp add: nat_less_iff)
  have ne: "fixed_digits 10 (nat m) \<noteq> []"
    by (metis length_fixed_digits list.size(3) zero_neq_numeral)
  have "parseInt (fixed_digits 10 (nat m)) = Num (int (digits_val (fixed_digits 10 (nat m))))"
    using ne by (intro parseInt_digits) (auto simp: fixed_digits_all_digits)
  then show ?thesis
    using assms b by (simp add: format_offset_fixed digits_val_fixed)
qed

lemma digit_char_digit_val: "is_digit c \<Longrightarrow> digit_char (digit_val c) = c \<and> digit_val c < 10"
proof -
  assume d: "is_digit c"
  define v where "v = (of_char c :: nat)"
  have r: "48 \<le> v" "v \<le> 57" using d by (simp_all add: is_digit_def less_eq_char_def v_def)
  then have "v - 48 < 10" by simp
  then have "(of_char (digit_char (v - 48)) :: nat) = v" using r by (simp add: digit_char_code)
  then have "digit_char (v - 48) = c"
    unfolding v_def by (metis of_char_eq_iff)
  then show ?thesis using r by (simp add: digit_val_def v_def)
qed

lemma fixed_digits_digits_val:
  "\<forall>c\<in>set ds. is_digit c \<Longrightarrow>
   fixed_digits (length ds) (digits_val ds) = ds \<and> digits_val ds < 10 ^ length ds"
proof (induction ds rule: rev_induct)
  case Nil
  then show ?case by (simp add: digits_val_def)
next
  case (snoc c ds)
  then have ih: "fixed_digits (length ds) (digits_val ds) = ds" "digits_val ds < 10 ^ length ds"
    by simp_all
  have c: "digit_char (digit_val c) = c" "digit_val c < 10"
    using snoc.prems digit_char_digit_val by simp_all
  have "10 * digits_val ds + digit_val c < 10 * 10 ^ length ds"
    using ih(2) c(2) by linarith
  then show ?case
    using ih c by (simp add: digits_val_snoc)
qed

lemma offsets_after_0 [simp]: "offsets_after n 0 = []"
  by (simp add: offsets_after_def)

lemma offsets_after_Suc:
  "offsets_after n (Suc k) = format_offset (Num (n + 1)) # offsets_after (n + 1) k"
proof -
  have "[0..<Suc k] = 0 # map Suc [0..<k]"
    by (simp add: upt_conv_Cons map_Suc_upt del: upt_Suc)
  then show ?thesis
    by (simp add: offsets_after_def comp_def algebra_simps del: upt_Suc)
qed

lemma length_offsets_after [simp]: "length (offsets_after n k) = k"
  by (simp add: offsets_after_def)

lemma offsets_after_add:
  "offsets_after n (a + b) = offsets_after n a @ offsets_after (n + int a) b"
  by (induction a arbitrary: n) (simp_all add: offsets_after_Suc add.assoc)

lemma push_sessions_shape:
  "\<exists>new. push_sessions clock dir ss (evs, Num n) = (evs @ new, Num (n + int (length ss)))
     \<and> map offset new = offsets_after n (length ss)
     \<and> map upToDate new = replicate (length ss) False"
proof (induction ss arbitrary: evs n)
  case Nil
  then show ?case by simp
next
  case (Cons s ss)
  define e where "e = \<lparr>type = ''session.created'', offset = format_offset (Num (n + 1)),
     timestamp = clock (length evs), upToDate = False, payload = SessionRef (s_id s) dir\<rparr>"
  obtain new where new:
    "push_sessions clock dir ss (evs @ [e], Num (n + 1)) = ((evs @ [e]) @ new, Num (n + 1 + int (length ss)))"
    "map offset new = offsets_after (n + 1) (length ss)"
    "map upToDate new = replicate (length ss) False"
    using Cons.IH by blast
  have "push_sessions clock dir (s # ss) (evs, Num n) = (evs @ (e # new), Num (n + int (length (s # ss))))"
    using new(1) by (simp add: incr_def e_def Let_def add.commute add.left_commute)
  moreover have "map offset (e # new) = offsets_after n (length (s # ss))"
    using new(2) by (simp add: offsets_after_Suc e_def)
  moreover have "map upToDate (e # new) = replicate (length (s # ss)) False"
    using new(3) by (simp add: e_def)
  ultimately show ?case by blast
qed

lemma push_statuses_shape:
  "\<exists>new. push_statuses nrm clock sts (evs, Num n) = (evs @ new, Num (n + int (length sts)))
     \<and> map offset new = offsets_after n (length sts)
     \<and> map upToDate new = replicate (length sts) False"
proof (induction sts arbitrary: evs n)
  case Nil
  then show ?case by simp
next
  case (Cons p sts)
  obtain sessionId backendStatus where p: "p = (sessionId, backendStatus)" by (cases p)
  define e where "e = \<lparr>type = ''session.updated'', offset = format_offset (Num (n + 1)),
     timestamp = clock (length evs), upToDate = False,
     payload = SessionStatusRef sessionId (nrm backendStatus)\<rparr>"
  obtain new where new:
    "push_statuses nrm clock sts (evs @ [e], Num (n + 1)) = ((evs @ [e]) @ new, Num (n + 1 + int (length sts)))"
    "map offset new = offsets_after (n + 1) (length sts)"
    "map upToDate new = replicate (length sts) False"
    using Cons.IH by blast
  have "push_statuses nrm clock (p # sts) (evs, Num n) = (evs @ (e # new), Num (n + int (length (p # sts))))"
    using new(1) by (simp add: p incr_def e_def Let_def add.commute add.left_commute)
  moreover have "map offset (e # new) = offsets_after n (length (p # sts))"
    using new(2) by (simp add: offsets_after_Suc e_def)
  moreover have "map upToDate (e # new) = replicate (length (p # sts)) False"
    using new(3) by (simp add: e_def)
  ultimately show ?case by blast
qed

lemma fetch_servers_shape:
  "\<exists>new. fetch_servers nrm clock servers (evs, Num n)
         = (evs @ new, Num (n + int (event_count servers)))
     \<and> length new = event_count servers
     \<and> map offset new = offsets_after n (event_count servers)
     \<and> map upToDate new = replicate (event_count servers) False"
proof (induction servers arbitrary: evs n)
  case Nil
  have "fetch_servers nrm clock [] (evs, Num n) = (evs @ [], Num (n + int (event_count [])))"
    by simp
  then show ?case by (metis event_count.simps(1) length_0_conv list.map(1) offsets_after_0 replicate_0)
next
  case (Cons server rest)
  obtain a where a:
    "push_sessions clock (directory server) (sessions server) (evs, Num n)
       = (evs @ a, Num (n + int (length (sessions server))))"
    "map offset a = offsets_after n (length (sessions server))"
    "map upToDate a = replicate (length (sessions server)) False"
    using push_sessions_shape by blast
  define ka where "ka = length (sessions server)"
  obtain b where b:
    "push_statuses nrm clock (statusMap server) (evs @ a, Num (n + int ka))
       = ((evs @ a) @ b, Num (n + int ka + int (length (statusMap server))))"
    "map offset b = offsets_after (n + int ka) (length (statusMap server))"
    "map upToDate b = replicate (length (statusMap server)) False"
    using push_statuses_shape by blast
  define kb where "kb = length (statusMap server)"
  define k where "k = event_count rest"
  obtain c where c:
    "fetch_servers nrm clock rest ((evs @ a) @ b, Num (n + int ka + int kb))
       = (((evs @ a) @ b) @ c, Num (n + int ka + int kb + int k))"
    "length c = k"
    "map offset c = offsets_after (n + int ka + int kb) k"
    "map upToDate c = replicate k False"
    unfolding k_def using Cons.IH by blast
  have la: "length a = ka" using a(2) by (metis ka_def length_map length_offsets_after)
  have lb: "length b = kb" using b(2) by (metis kb_def length_map length_offsets_after)
  have tot: "event_count (server # rest) = ka + kb + k" by (simp add: ka_def kb_def k_def)
  have 1: "fetch_servers nrm clock (server # rest) (evs, Num n)
      = (evs @ (a @ b @ c), Num (n + int (ka + kb + k)))"
    using a(1) b(1) c(1) by (simp add: ka_def kb_def add.assoc)
  have 2: "length (a @ b @ c) = ka + kb + k" using la lb c(2) by simp
  have 3: "map offset (a @ b @ c) = offsets_after n (ka + kb + k)"
    using a(2) b(2) c(3) by (simp add: offsets_after_add ka_def kb_def add.assoc)
  have 4: "map upToDate (a @ b @ c) = replicate (ka + kb + k) False"
    using a(3) b(3) c(4) by (simp add: replicate_add ka_def kb_def)
  show ?case unfolding tot using 1 2 3 4 by blast
qed

lemma nth_offsets_after: "i < k \<Longrightarrow> offsets_after n k ! i = format_offset (Num (n + 1 + int i))"
  by (simp add: offsets_after_def)

lemma map_offset_mark_last: "map offset (mark_last evs) = map offset evs"
  by (simp add: mark_last_def map_update list_update_same_conv)

lemma length_mark_last [simp]: "length (mark_last evs) = length evs"
  by (simp add: mark_last_def)

lemma mark_last_Nil_iff [simp]: "mark_last evs = [] \<longleftrightarrow> evs = []"
  by (metis length_0_conv length_mark_last)

lemma map_upToDate_mark_last:
  assumes "map upToDate evs = replicate (length evs) False"
  shows "map upToDate (mark_last evs)
     = (if evs = [] then [] else replicate (length evs - 1) False @ [True])"
proof (cases "evs = []")
  case True
  then show ?thesis by (simp add: mark_last_def)
next
  case False
  then obtain j where j: "length evs = Suc j" by (cases evs) auto
  have "map upToDate (mark_last evs) = (map upToDate evs)[j := True]"
    using j by (simp add: mark_last_def map_update)
  also have "\<dots> = (replicate j False @ [False])[j := True]"
    using assms j by (simp add: replicate_append_same)
  also have "\<dots> = replicate j False @ [True]"
    by (metis length_replicate list_update_length)
  finally show ?thesis using False j by simp
qed

lemma catchUp_events_shape:
  assumes "start_counter off = Num n"
  shows "map offset (events (catchUpEvents nrm clock servers off))
       = offsets_after n (length (events (catchUpEvents nrm clock servers off)))
     \<and> map upToDate (events (catchUpEvents nrm clock servers off))
       = (if events (catchUpEvents nrm clock servers off) = [] then []
          else replicate (length (events (catchUpEvents nrm clock servers off)) - 1) False @ [True])
     \<and> nextOffset (catchUpEvents nrm clock servers off)
       = (if events (catchUpEvents nrm clock servers off) = [] then None
          else Some (offset (last (events (catchUpEvents nrm clock servers off)))))"
proof (cases "servers = []")
  case True
  then show ?thesis by (simp add: catchUpEvents_def)
next
  case False
  define k where "k = event_count servers"
  obtain new where new:
    "fetch_servers nrm clock servers ([], Num n) = ([] @ new, Num (n + int k))"
    "length new = k" "map offset new = offsets_after n k"
    "map upToDate new = replicate k False"
    unfolding k_def using fetch_servers_shape by blast
  have f: "fst (fetch_servers nrm clock servers ([], start_counter off)) = new"
    using new(1) assms by simp
  have ev: "events (catchUpEvents nrm clock servers off) = mark_last new"
    using False by (simp add: catchUpEvents_def Let_def f)
  have nx0: "nextOffset (catchUpEvents nrm clock servers off)
      = (if length (mark_last new) > 0
         then Some (offset (mark_last new ! (length (mark_last new) - 1))) else None)"
    using False by (simp add: catchUpEvents_def Let_def f)
  have nx: "nextOffset (catchUpEvents nrm clock servers off)
      = (if mark_last new = [] then None else Some (offset (last (mark_last new))))"
  proof (cases "mark_last new = []")
    case True
    then show ?thesis using nx0 by simp
  next
    case False
    then show ?thesis using nx0 by (simp add: last_conv_nth)
  qed
  have 1: "map offset (mark_last new) = offsets_after n (length (mark_last new))"
    using new(2,3) by (simp add: map_offset_mark_last)
  have 2: "map upToDate (mark_last new)
      = (if mark_last new = [] then [] else replicate (length (mark_last new) - 1) False @ [True])"
    using map_upToDate_mark_last [of new] new(2,4)
    by (metis length_0_conv length_mark_last)
  show ?thesis unfolding ev using 1 2 nx by simp
qed

lemma offsets_after_in_range:
  assumes "0 \<le> n" "n + int k < 10 ^ 10" "i < k"
  shows "offsets_after n k ! i = fixed_digits 10 (nat (n + 1 + int i))"
    and "parseInt (offsets_after n k ! i) = Num (n + 1 + int i)"
    and "decimal10 (offsets_after n k ! i)"
proof -
  have r: "0 \<le> n + 1 + int i" "n + 1 + int i < 10 ^ 10" using assms by simp_all
  show a: "offsets_after n k ! i = fixed_digits 10 (nat (n + 1 + int i))"
    using assms(3) r by (simp add: nth_offsets_after format_offset_fixed)
  show "parseInt (offsets_after n k ! i) = Num (n + 1 + int i)"
    using assms(3) r by (simp add: nth_offsets_after parseInt_format_offset)
  show "decimal10 (offsets_after n k ! i)"
    unfolding a decimal10_def by (simp add: list_all_iff fixed_digits_all_digits)
qed

lemma offsets_after_order:
  assumes "0 \<le> n" "n + int k < 10 ^ 10" "i < k" "j < k"
  shows "(offsets_after n k ! i < offsets_after n k ! j) = (i < j)"
proof -
  have "(format_offset (Num (n + 1 + int i)) < format_offset (Num (n + 1 + int j)))
      = (n + 1 + int i < n + 1 + int j)"
    using assms by (intro format_offset_less_iff) simp_all
  then show ?thesis using assms(3,4) by (simp add: nth_offsets_after)
qed

lemma decimal10_fixed:
  assumes "decimal10 s"
  shows "s = fixed_digits 10 (digits_val s)" and "digits_val s < 10 ^ 10"
    and "parseInt s = Num (int (digits_val s))"
proof -
  have d: "\<forall>c\<in>set s. is_digit c" and l: "length s = 10"
    using assms by (simp_all add: decimal10_def list_all_iff)
  show "s = fixed_digits 10 (digits_val s)" "digits_val s < 10 ^ 10"
    using fixed_digits_digits_val [OF d] l by simp_all
  have "s \<noteq> []" using l by auto
  then show "parseInt s = Num (int (digits_val s))"
    using d by (rule parseInt_digits)
qed

lemma decimal10_start_counter:
  assumes "decimal10 s" "start_counter (Some s) = Num n"
  shows "0 \<le> n" and "n < 10 ^ 10" and "s = fixed_digits 10 (nat n)"
proof -
  have ne: "s \<noteq> []" using assms(1) by (auto simp: decimal10_def)
  have n: "n = int (digits_val s)"
    using assms(2) ne decimal10_fixed(3) [OF assms(1)] by (simp add: start_counter_def)
  show "0 \<le> n" using n by simp
  have "int (digits_val s) < int (10 ^ 10)"
    using decimal10_fixed(2) [OF assms(1)] by (rule iffD2 [OF of_nat_less_iff])
  then show "n < 10 ^ 10" using n by simp
  show "s = fixed_digits 10 (nat n)" using n decimal10_fixed(1) [OF assms(1)] by simp
qed

lemma length_catchUp_events:
  assumes "start_counter off = Num n"
  shows "length (events (catchUpEvents nrm clock servers off)) = event_count servers"
proof (cases "servers = []")
  case True
  then show ?thesis by (simp add: catchUpEvents_def)
next
  case False
  obtain new where new:
    "fetch_servers nrm clock servers ([], Num n) = ([] @ new, Num (n + int (event_count servers)))"
    "length new = event_count servers"
    using fetch_servers_shape by blast
  have f: "fst (fetch_servers nrm clock servers ([], start_counter off)) = new"
    using new(1) assms by simp
  show ?thesis using False new(2) by (simp add: catchUpEvents_def Let_def f)
qed

lemmas eval_offset =
  format_offset_def incr_def start_counter_def parseInt_def is_space_def is_digit_def
  digits_val_def digit_val_def padStart.simps number_to_string_def nat_digits.simps
  digit_char_def less_eq_char_def

lemmas eval_stream =
  catchUpEvents_def mark_last_def tailEvents_def or_else_def recognized_def
  example_normalize_def example_clock_def example_session_def
  example_server_def example_live_def Let_def

text \<open>
  Claim C3, amended. Let the given offset be absent, empty, or a string that \<open>parseInt\<close>
  reads as \<open>n \<ge> 0\<close>, and let \<open>n\<close> plus the number of events of the batch stay below
  \<open>10^10\<close>. Then the batch is numbered \<open>n + 1, n + 2, \<dots>\<close>; every offset is a ten-digit
  decimal string; the offsets increase strictly in lexicographic order, which on them
  coincides with the order of their positions and numeric values; every offset reads
  numerically as more than \<open>n\<close>, and is lexicographically after the given offset when that
  is itself a ten-digit string; exactly the last event of a non-empty batch carries
  \<open>upToDate = true\<close>; and \<open>nextOffset\<close> is the last event's offset.
\<close>

theorem catchUp_batch_offsets:
  assumes sc: "start_counter off = Num n"
    and n0: "0 \<le> n"
    and bound: "n + int (length (events (catchUpEvents nrm clock servers off))) < 10 ^ 10"
  shows "map offset (events (catchUpEvents nrm clock servers off))
        = offsets_after n (length (events (catchUpEvents nrm clock servers off)))
     \<and> (\<forall>e \<in> set (events (catchUpEvents nrm clock servers off)). decimal10 (offset e))
     \<and> sorted_wrt (<) (map offset (events (catchUpEvents nrm clock servers off)))
     \<and> (\<forall>i < length (events (catchUpEvents nrm clock servers off)).
          parseInt (offset (events (catchUpEvents nrm clock servers off) ! i)) = Num (n + 1 + int i))
     \<and> (\<forall>i < length (events (catchUpEvents nrm clock servers off)).
         \<forall>j < length (events (catchUpEvents nrm clock servers off)).
          (offset (events (catchUpEvents nrm clock servers off) ! i)
             < offset (events (catchUpEvents nrm clock servers off) ! j)) = (i < j))
     \<and> (\<forall>s. off = Some s \<and> decimal10 s \<longrightarrow>
          (\<forall>e \<in> set (events (catchUpEvents nrm clock servers off)). s < offset e))
     \<and> map upToDate (events (catchUpEvents nrm clock servers off))
        = (if events (catchUpEvents nrm clock servers off) = [] then []
           else replicate (length (events (catchUpEvents nrm clock servers off)) - 1) False @ [True])
     \<and> nextOffset (catchUpEvents nrm clock servers off)
        = (if events (catchUpEvents nrm clock servers off) = [] then None
           else Some (offset (last (events (catchUpEvents nrm clock servers off)))))"
proof -
  define evs where "evs = events (catchUpEvents nrm clock servers off)"
  define k where "k = length evs"
  note shape = catchUp_events_shape [OF sc, of nrm clock servers, folded evs_def]
  have offs: "map offset evs = offsets_after n k"
    using shape by (simp add: k_def)
  have b: "n + int k < 10 ^ 10" using bound by (simp add: evs_def k_def)
  have nth: "offset (evs ! i) = offsets_after n k ! i" if "i < k" for i
    using that offs by (metis k_def nth_map)
  have dec: "\<forall>e \<in> set evs. decimal10 (offset e)"
  proof
    fix e assume "e \<in> set evs"
    then obtain i where i: "i < k" "evs ! i = e" by (auto simp: in_set_conv_nth k_def)
    show "decimal10 (offset e)"
      using offsets_after_in_range(3) [OF n0 b i(1)] nth [OF i(1)] i(2) by simp
  qed
  have ord: "(offset (evs ! i) < offset (evs ! j)) = (i < j)" if "i < k" "j < k" for i j
    using offsets_after_order [OF n0 b that] nth that by simp
  have srt: "sorted_wrt (<) (map offset evs)"
    unfolding sorted_wrt_iff_nth_less using ord by (simp add: k_def)
  have num: "\<forall>i < k. parseInt (offset (evs ! i)) = Num (n + 1 + int i)"
    using offsets_after_in_range(2) [OF n0 b] nth by simp
  have after: "\<forall>s. off = Some s \<and> decimal10 s \<longrightarrow> (\<forall>e \<in> set evs. s < offset e)"
  proof (intro allI impI ballI)
    fix s e
    assume s: "off = Some s \<and> decimal10 s" and e: "e \<in> set evs"
    obtain i where i: "i < k" "evs ! i = e" using e by (auto simp: in_set_conv_nth k_def)
    have sn: "n < 10 ^ 10" "s = fixed_digits 10 (nat n)"
      using decimal10_start_counter [of s n] s sc by simp_all
    have "s = format_offset (Num n)" using sn n0 by (simp add: format_offset_fixed)
    moreover have "offset e = format_offset (Num (n + 1 + int i))"
      using nth [OF i(1)] i by (simp add: nth_offsets_after)
    moreover have "(format_offset (Num n) < format_offset (Num (n + 1 + int i)))
        = (n < n + 1 + int i)"
      using n0 b i(1) sn(1) by (intro format_offset_less_iff) simp_all
    ultimately show "s < offset e" by simp
  qed
  show ?thesis
    unfolding evs_def [symmetric] k_def [symmetric]
    using offs dec srt num ord after shape by (simp add: k_def)
qed

theorem catchUp_batch_offsets_witness:
  "start_counter (Some ''0000000042'') = Num 42
   \<and> 42 + int (length (events example_response)) < 10 ^ 10
   \<and> map offset (events example_response) = [''0000000043'', ''0000000044'', ''0000000045'']
   \<and> map upToDate (events example_response) = [False, False, True]
   \<and> nextOffset example_response = Some ''0000000045''"
proof -
  let ?evs = "events example_response"
  have sc: "start_counter (Some ''0000000042'') = Num 42"
    by (simp add: eval_offset)
  have len: "length ?evs = 3"
    unfolding example_response_def
    by (simp add: length_catchUp_events [OF sc] example_server_def)
  have bound: "42 + int (length ?evs) < 10 ^ 10"
    unfolding len by simp
  have ne: "?evs \<noteq> []" using len by auto
  have le: "(0::int) \<le> 42" by simp
  note inst = catchUp_batch_offsets
    [OF sc le bound [unfolded example_response_def], folded example_response_def]
  have o: "offsets_after 42 3 = [''0000000043'', ''0000000044'', ''0000000045'']"
    by (simp add: offsets_after_def upt_rec eval_offset)
  have a: "map offset ?evs = [''0000000043'', ''0000000044'', ''0000000045'']"
    using inst [THEN conjunct1] by (simp add: len o)
  have g: "map upToDate ?evs = [False, False, True]"
    using inst [THEN conjunct2, THEN conjunct2, THEN conjunct2, THEN conjunct2,
      THEN conjunct2, THEN conjunct2, THEN conjunct1] ne
    by (simp add: len numeral_2_eq_2)
  have "offset (last ?evs) = last (map offset ?evs)"
    using ne by (simp add: last_map)
  then have l: "offset (last ?evs) = ''0000000045''"
    unfolding a by simp
  have h: "nextOffset example_response = Some ''0000000045''"
    using inst [THEN conjunct2, THEN conjunct2, THEN conjunct2, THEN conjunct2,
      THEN conjunct2, THEN conjunct2, THEN conjunct2] ne l
    by simp
  show ?thesis using sc bound a g h by blast
qed

text \<open>
  Claim C3 as stated fails at the ten-digit offset 9999999999: the next counter value has
  eleven digits, \<open>padStart\<close> leaves it unchanged, and the resulting offset sorts before the
  given one.
\<close>

theorem catchUp_offset_width_counterexample:
  "map offset (events (catchUpEvents example_normalize example_clock
       [example_server [''ses_a''] []] (Some ''9999999999'')))
     = [''10000000000'']
   \<and> \<not> decimal10 ''10000000000''
   \<and> \<not> (''9999999999'' < ''10000000000'')"
  by (simp add: eval_stream eval_offset decimal10_def)

lemma scan_events:
  "map event (stream_scan s (\<lambda>state ev. \<lparr>lastOffset = Some (offset ev), event = Some ev\<rparr>) xs)
     = event s # map Some xs"
  by (induction xs arbitrary: s) simp_all

lemma map_filter_Some: "List.map_filter (\<lambda>x. x) (map Some xs) = xs"
  by (induction xs) (simp_all add: List.map_filter_simps)

lemma resumeEvents_concat:
  "resumeEvents nrm clock1 servers1 clock2 servers2 savedOffset live
     = events (catchUpEvents nrm clock1 servers1 savedOffset)
       @ tailEvents (or_else (nextOffset (catchUpEvents nrm clock2 servers2 savedOffset)) savedOffset) live"
  unfolding resumeEvents_def Let_def scan_events
  by (simp add: List.map_filter_simps map_filter_Some flip: map_append)

lemma tail_loop_upToDate: "e \<in> set (tail_loop c live) \<Longrightarrow> upToDate e = False"
  by (induction c live rule: tail_loop.induct) (auto simp: Let_def split: if_splits)

lemma map_const_replicate:
  "\<forall>x \<in> set xs. f x = c \<Longrightarrow> map f xs = replicate (length xs) c"
  by (induction xs) simp_all

text \<open>
  Claim C10. With no discovered backend, a catch-up returns no events, no next offset, and
  reports being up to date. A resume whose history query finds no backend emits exactly the
  events of the live tail, each of them with \<open>upToDate = false\<close>; when the second query
  finds none either, the tail starts from the saved offset.
\<close>

theorem catchUp_no_servers:
  "catchUpEvents nrm clock [] off = \<lparr>events = [], nextOffset = None, caughtUp = True\<rparr>
   \<and> resumeEvents nrm clock1 [] clock2 servers2 off live
       = tailEvents (or_else (nextOffset (catchUpEvents nrm clock2 servers2 off)) off) live
   \<and> resumeEvents nrm clock1 [] clock2 [] off live = tailEvents off live
   \<and> (\<forall>e \<in> set (resumeEvents nrm clock1 [] clock2 servers2 off live). upToDate e = False)"
proof -
  have 1: "catchUpEvents nrm clock [] off = \<lparr>events = [], nextOffset = None, caughtUp = True\<rparr>"
    for clock
    by (simp add: catchUpEvents_def)
  have 2: "resumeEvents nrm clock1 [] clock2 servers2 off live
       = tailEvents (or_else (nextOffset (catchUpEvents nrm clock2 servers2 off)) off) live"
    by (simp add: resumeEvents_concat 1)
  have 3: "resumeEvents nrm clock1 [] clock2 [] off live = tailEvents off live"
    by (simp add: resumeEvents_concat 1 or_else_def)
  have 4: "\<forall>e \<in> set (resumeEvents nrm clock1 [] clock2 servers2 off live). upToDate e = False"
    unfolding 2 tailEvents_def using tail_loop_upToDate by blast
  show ?thesis using 1 2 3 4 by blast
qed

theorem catchUp_no_servers_witness:
  "map offset (resumeEvents example_normalize example_clock [] example_clock []
       (Some ''0000000042'') [example_live ''message.updated'', example_live ''server.heartbeat'',
          example_live ''session.status''])
     = [''0000000043'', ''0000000044'']
   \<and> map upToDate (resumeEvents example_normalize example_clock [] example_clock []
       (Some ''0000000042'') [example_live ''message.updated'', example_live ''server.heartbeat'',
          example_live ''session.status''])
     = [False, False]"
proof -
  let ?live = "[example_live ''message.updated'', example_live ''server.heartbeat'',
          example_live ''session.status'']"
  note inst = catchUp_no_servers [of example_normalize example_clock "Some ''0000000042''"
      example_clock example_clock "[]" ?live]
  have t: "map offset (tailEvents (Some ''0000000042'') ?live) = [''0000000043'', ''0000000044'']"
    by (simp add: eval_stream eval_offset)
  have r: "resumeEvents example_normalize example_clock [] example_clock []
       (Some ''0000000042'') ?live = tailEvents (Some ''0000000042'') ?live"
    using inst [THEN conjunct2, THEN conjunct2, THEN conjunct1] .
  have len: "length (tailEvents (Some ''0000000042'') ?live) = 2"
    using arg_cong [OF t, of length] by simp
  have f: "\<forall>e \<in> set (tailEvents (Some ''0000000042'') ?live). upToDate e = False"
    using inst [THEN conjunct2, THEN conjunct2, THEN conjunct2] by (simp only: r)
  have "map upToDate (tailEvents (Some ''0000000042'') ?live) = replicate 2 False"
    using map_const_replicate [OF f] by (simp only: len)
  then show ?thesis
    unfolding r using t by (simp add: numeral_2_eq_2)
qed

text \<open>
  Claim C1. The two runs of the catch-up effect inside \<open>resumeEvents\<close> can see different
  backend data. Here the first run sees two sessions and the second run, made when the tail
  starts, sees one: the first live event is given an offset that the history already used.
\<close>

theorem resume_duplicate_offset:
  "map offset (resumeEvents example_normalize example_clock [example_server [''ses_a'', ''ses_b''] []]
       example_clock [example_server [''ses_a''] []]
       (Some ''0000000042'') [example_live ''message.updated''])
     = [''0000000043'', ''0000000044'', ''0000000044'']"
proof -
  have history: "map offset (events (catchUpEvents example_normalize example_clock
       [example_server [''ses_a'', ''ses_b''] []] (Some ''0000000042'')))
     = [''0000000043'', ''0000000044'']"
    by (simp add: eval_stream eval_offset)
  have start: "nextOffset (catchUpEvents example_normalize example_clock
       [example_server [''ses_a''] []] (Some ''0000000042'')) = Some ''0000000043''"
    by (simp add: eval_stream eval_offset)
  have live: "map offset (tailEvents (Some ''0000000043'') [example_live ''message.updated''])
     = [''0000000044'']"
    by (simp add: eval_stream eval_offset)
  show ?thesis
    by (simp add: resumeEvents_concat history start live or_else_def)
qed

section \<open>Cursor store\<close>

lemma project_key_set_row [simp]: "project_key (set_row now c r) = project_key r"
  by (simp add: set_row_def)

lemma set_row_idem [simp]: "set_row now c (set_row now c r) = set_row now c r"
  by (simp add: set_row_def)

lemma map_project_key_upsert_row:
  "map project_key (rows (upsert_row now c db))
     = (if projectKey c \<in> set (map project_key (rows db)) then map project_key (rows db)
        else map project_key (rows db) @ [projectKey c])"
proof -
  have "map project_key (map (\<lambda>r. if project_key r = projectKey c then set_row now c r else r) rs)
      = map project_key rs" for rs
    by (induction rs) simp_all
  then show ?thesis by (simp add: upsert_row_def)
qed

lemma upsert_row_keys:
  "set (map project_key (rows (upsert_row now c db)))
     = insert (projectKey c) (set (map project_key (rows db)))"
  unfolding map_project_key_upsert_row by auto

lemma filter_upsert_row_same:
  "set (filter (\<lambda>r. project_key r = projectKey c) (rows (upsert_row now c db)))
     \<subseteq> {r. row_offset r = cursor_offset c \<and> row_timestamp r = cursor_timestamp c}"
proof (cases "projectKey c \<in> set (map project_key (rows db))")
  case True
  then show ?thesis by (auto simp: upsert_row_def set_row_def)
next
  case False
  then have "filter (\<lambda>r. project_key r = projectKey c) (rows db) = []"
    by (force simp: filter_empty_conv)
  then show ?thesis using False by (simp add: upsert_row_def)
qed

lemma load_after_upsert:
  "loadCursor Executes (projectKey c) (upsert_row now c db) = Inr (Some c)"
proof -
  define result where
    "result = filter (\<lambda>r. project_key r = projectKey c) (rows (upsert_row now c db))"
  have "projectKey c \<in> set (map project_key (rows (upsert_row now c db)))"
    unfolding upsert_row_keys by simp
  then have ne: "result \<noteq> []"
    by (auto simp: result_def filter_empty_conv)
  have all: "set result \<subseteq> {r. row_offset r = cursor_offset c \<and> row_timestamp r = cursor_timestamp c}"
    unfolding result_def by (rule filter_upsert_row_same)
  have k: "\<forall>r \<in> set result. project_key r = projectKey c"
    by (simp add: result_def)
  have "result ! 0 \<in> set result" using ne by simp
  then have "row_offset (result ! 0) = cursor_offset c"
    "row_timestamp (result ! 0) = cursor_timestamp c" "project_key (result ! 0) = projectKey c"
    using all k by blast+
  then show ?thesis
    using ne by (simp add: loadCursor_def Let_def flip: result_def)
qed

lemma upsert_row_idem: "upsert_row now c (upsert_row now c db) = upsert_row now c db"
proof -
  let ?f = "\<lambda>r. if project_key r = projectKey c then set_row now c r else r"
  have m: "projectKey c \<in> set (map project_key (rows (upsert_row now c db)))"
    unfolding upsert_row_keys by simp
  have "map ?f (rows (upsert_row now c db)) = rows (upsert_row now c db)"
  proof (cases "projectKey c \<in> set (map project_key (rows db))")
    case True
    then show ?thesis by (simp add: upsert_row_def)
  next
    case False
    then have "map ?f (rows db) = rows db"
      by (intro map_idI) force
    then show ?thesis using False by (simp add: upsert_row_def set_row_def)
  qed
  then show ?thesis
    using m by (simp add: upsert_row_def [of now c "upsert_row now c db"])
qed

lemma load_absent:
  "key \<notin> set (map project_key (rows db)) \<Longrightarrow> loadCursor Executes key db = Inr None"
  by (auto simp: loadCursor_def Let_def filter_empty_conv)

lemma save_all_keys:
  "set (map project_key (rows (save_all now cs db)))
     = set (map projectKey cs) \<union> set (map project_key (rows db))"
proof (induction cs arbitrary: db)
  case Nil
  then show ?case by simp
next
  case (Cons c cs)
  have "set (map project_key (rows (save_all now (c # cs) db)))
      = set (map projectKey cs) \<union> set (map project_key (rows (upsert_row now c db)))"
    using Cons.IH [of "upsert_row now c db"] by (simp add: saveCursor_def)
  then show ?case unfolding upsert_row_keys by auto
qed


lemma length_rows_upsert_same_key:
  "projectKey c' = projectKey c \<Longrightarrow>
   length (rows (upsert_row now' c' (upsert_row now c db))) = length (rows (upsert_row now c db))"
proof -
  assume k: "projectKey c' = projectKey c"
  have "projectKey c' \<in> set (map project_key (rows (upsert_row now c db)))"
    unfolding upsert_row_keys k by simp
  then have "map project_key (rows (upsert_row now' c' (upsert_row now c db)))
      = map project_key (rows (upsert_row now c db))"
    by (simp only: map_project_key_upsert_row if_True)
  then show ?thesis by (rule map_eq_imp_length_eq)
qed

text \<open>
  Claim C9. A successful \<open>saveCursor\<close> followed by \<open>loadCursor\<close> of the same project key
  returns the saved cursor; saving the same cursor again changes nothing; a later save under
  the same key replaces the stored value without adding a row; a key that no save has used
  loads as \<open>null\<close>; and a statement that the database rejects makes either operation
  return a failure, leaving the table as it was.
\<close>

theorem cursor_store_roundtrip:
  "fst (saveCursor Executes now c db) = Inr ()
   \<and> loadCursor Executes (projectKey c) (snd (saveCursor Executes now c db)) = Inr (Some c)
   \<and> snd (saveCursor Executes now c (snd (saveCursor Executes now c db)))
       = snd (saveCursor Executes now c db)
   \<and> (projectKey c' = projectKey c \<longrightarrow>
        loadCursor Executes (projectKey c)
          (snd (saveCursor Executes now' c' (snd (saveCursor Executes now c db)))) = Inr (Some c')
        \<and> length (rows (snd (saveCursor Executes now' c' (snd (saveCursor Executes now c db)))))
          = length (rows (snd (saveCursor Executes now c db))))
   \<and> (key \<notin> set (map projectKey cs) \<longrightarrow>
        loadCursor Executes key (save_all now cs empty_db) = Inr None)
   \<and> saveCursor (Rejects e) now c db = (Inl (Error (''Failed to save cursor: '' @ e)), db)
   \<and> loadCursor (Rejects e) key db = Inl (Error (''Failed to load cursor: '' @ e))"
proof -
  have 1: "fst (saveCursor Executes now c db) = Inr ()"
    by (simp add: saveCursor_def)
  have 2: "loadCursor Executes (projectKey c) (snd (saveCursor Executes now c db)) = Inr (Some c)"
    by (simp add: saveCursor_def load_after_upsert)
  have 3: "snd (saveCursor Executes now c (snd (saveCursor Executes now c db)))
       = snd (saveCursor Executes now c db)"
    by (simp add: saveCursor_def upsert_row_idem)
  have 4: "loadCursor Executes (projectKey c)
          (snd (saveCursor Executes now' c' (snd (saveCursor Executes now c db)))) = Inr (Some c')"
    if "projectKey c' = projectKey c"
    using load_after_upsert [of c' now' "upsert_row now c db"] that by (simp add: saveCursor_def)
  have 5: "length (rows (snd (saveCursor Executes now' c' (snd (saveCursor Executes now c db)))))
          = length (rows (snd (saveCursor Executes now c db)))"
    if "projectKey c' = projectKey c"
    using length_rows_upsert_same_key [OF that] by (simp add: saveCursor_def)
  have 6: "loadCursor Executes key (save_all now cs empty_db) = Inr None"
    if "key \<notin> set (map projectKey cs)"
  proof (rule load_absent)
    show "key \<notin> set (map project_key (rows (save_all now cs empty_db)))"
      unfolding save_all_keys using that by (simp add: empty_db_def)
  qed
  have 7: "saveCursor (Rejects e) now c db = (Inl (Error (''Failed to save cursor: '' @ e)), db)"
    by (simp add: saveCursor_def)
  have 8: "loadCursor (Rejects e) key db = Inl (Error (''Failed to load cursor: '' @ e))"
    by (simp add: loadCursor_def)
  show ?thesis using 1 2 3 4 5 6 7 8 by blast
qed

theorem cursor_store_roundtrip_witness:
  "loadCursor Executes ''/test''
     (snd (saveCursor Executes 6 (example_cursor ''0000000050'')
        (snd (saveCursor Executes 5 (example_cursor ''0000000042'') empty_db))))
     = Inr (Some (example_cursor ''0000000050''))
   \<and> loadCursor Executes ''/other'' (save_all 5 [example_cursor ''0000000042''] empty_db) = Inr None"
proof -
  note inst = cursor_store_roundtrip [of 5 "example_cursor ''0000000042''" empty_db
      "example_cursor ''0000000050''" 6 "''/other''" "[example_cursor ''0000000042'']"]
  have k: "projectKey (example_cursor ''0000000050'') = projectKey (example_cursor ''0000000042'')"
    "projectKey (example_cursor ''0000000042'') = ''/test''"
    by (simp_all add: example_cursor_def)
  have n: "''/other'' \<notin> set (map projectKey [example_cursor ''0000000042''])"
    by (simp add: example_cursor_def)
  have a: "loadCursor Executes ''/test''
     (snd (saveCursor Executes 6 (example_cursor ''0000000050'')
        (snd (saveCursor Executes 5 (example_cursor ''0000000042'') empty_db))))
     = Inr (Some (example_cursor ''0000000050''))"
    using inst [THEN conjunct2, THEN conjunct2, THEN conjunct2, THEN conjunct1] k
    by simp
  have b: "loadCursor Executes ''/other'' (save_all 5 [example_cursor ''0000000042''] empty_db) = Inr None"
    using inst [THEN conjunct2, THEN conjunct2, THEN conjunct2, THEN conjunct2, THEN conjunct1] n
    by simp
  show ?thesis using a b by (rule conjI)
qed

section \<open>Routing events to the store\<close>

text \<open>
  The router. A payload "has an id" when the guard \<open>payload?.id\<close> passes, and a \<open>sessionID\<close>
  is "present" when the guard on it passes. For such a payload, a routed \<open>message.created\<close>
  or \<open>message.updated\<close> event calls \<open>upsertMessage\<close> and then, if the \<open>sessionID\<close> is
  present, \<open>updateStatus(sessionID, "running")\<close>; a routed \<open>part.created\<close> or
  \<open>part.updated\<close> event, and a \<open>message.part.updated\<close> event whose \<open>part\<close> field holds the
  payload, call \<open>upsertPart\<close> and then the same signal. The router keeps no state, so this
  does not depend on any earlier status event.
\<close>

lemma route_message_and_part_events:
  assumes "truthy (opt_prop p ''id'')"
  shows "(ty = ''message.created'' \<or> ty = ''message.updated'' \<longrightarrow>
          routeEventToStore \<lparr>source = src, se_type = ty, data = p\<rparr>
            = Inr (UpsertMessage p # running_signal p))
       \<and> (ty = ''part.created'' \<or> ty = ''part.updated'' \<longrightarrow>
          routeEventToStore \<lparr>source = src, se_type = ty, data = p\<rparr>
            = Inr (UpsertPart p # running_signal p))
       \<and> (map_of kvs ''part'' = Some p \<longrightarrow>
          routeEventToStore \<lparr>source = src, se_type = ''message.part.updated'', data = JObj kvs\<rparr>
            = Inr (UpsertPart p # running_signal p))"
  using assms by (auto simp: routeEventToStore_def running_signal_def Let_def)

lemma route_message_and_part_events_example:
  "routeEventToStore \<lparr>source = ''swarm-db'', se_type = ''message.updated'', data = example_message\<rparr>
     = Inr [UpsertMessage example_message, UpdateStatus (JStr ''ses-1'') (JStr ''running'')]
   \<and> routeEventToStore \<lparr>source = ''swarm-db'', se_type = ''part.created'', data = example_part\<rparr>
     = Inr [UpsertPart example_part, UpdateStatus (JStr ''ses-1'') (JStr ''running'')]
   \<and> routeEventToStore \<lparr>source = ''sse'', se_type = ''message.part.updated'',
        data = JObj [(''part'', example_part)]\<rparr>
     = Inr [UpsertPart example_part, UpdateStatus (JStr ''ses-1'') (JStr ''running'')]"
proof -
  have m: "truthy (opt_prop example_message ''id'')"
    and p: "truthy (opt_prop example_part ''id'')"
    by (simp_all add: example_message_def example_part_def)
  have sm: "running_signal example_message = [UpdateStatus (JStr ''ses-1'') (JStr ''running'')]"
    and sp: "running_signal example_part = [UpdateStatus (JStr ''ses-1'') (JStr ''running'')]"
    by (simp_all add: running_signal_def example_message_def example_part_def)
  have w: "map_of [(''part'', example_part)] ''part'' = Some example_part"
    by simp
  show ?thesis
    using route_message_and_part_events [OF m, of "''message.updated''" "''swarm-db''"]
      route_message_and_part_events [OF p, of "''part.created''" "''swarm-db''"]
      route_message_and_part_events [OF p, of "''part.created''" "''sse''" "[(''part'', example_part)]"]
      sm sp w
    by simp
qed

text \<open>
  The connection manager's handler is not the router: a message or part event of the
  primary feed is upserted without the liveness signal, and the wrapped form is ignored.
\<close>

lemma handleEvent_upserts_only:
  assumes "truthy (opt_prop p ''id'')"
  shows "(ty = ''message.created'' \<or> ty = ''message.updated'' \<longrightarrow>
          handleEvent \<lparr>sse_type = ty, properties = p\<rparr> = Inr [UpsertMessage p])
       \<and> (ty = ''part.created'' \<or> ty = ''part.updated'' \<longrightarrow>
          handleEvent \<lparr>sse_type = ty, properties = p\<rparr> = Inr [UpsertPart p])
       \<and> handleEvent \<lparr>sse_type = ''message.part.updated'', properties = q\<rparr> = Inr []"
  using assms by (auto simp: handleEvent_def Let_def)

text \<open>
  Claim C5. The code does not do what the claim says on the connection manager's handler,
  through which every event of a backend's live feed goes. A \<open>message.updated\<close> event whose
  payload has an id and a \<open>sessionID\<close> is upserted, and no \<open>updateStatus(sessionID, running)\<close>
  follows; the same holds for a \<open>part.updated\<close> event; and a \<open>message.part.updated\<close> event
  that carries the part under \<open>part\<close> is dropped. The router, given the same payloads, sends
  the upsert and then the running signal.
\<close>

theorem handleEvent_sends_no_running_signal:
  "handleEvent \<lparr>sse_type = ''message.updated'', properties = example_message\<rparr>
     = Inr [UpsertMessage example_message]
   \<and> handleEvent \<lparr>sse_type = ''part.updated'', properties = example_part\<rparr>
     = Inr [UpsertPart example_part]
   \<and> handleEvent \<lparr>sse_type = ''message.part.updated'',
        properties = JObj [(''part'', example_part)]\<rparr>
     = Inr []
   \<and> routeEventToStore \<lparr>source = ''sse'', se_type = ''message.updated'', data = example_message\<rparr>
     = Inr [UpsertMessage example_message, UpdateStatus (JStr ''ses-1'') (JStr ''running'')]
   \<and> routeEventToStore \<lparr>source = ''sse'', se_type = ''part.updated'', data = example_part\<rparr>
     = Inr [UpsertPart example_part, UpdateStatus (JStr ''ses-1'') (JStr ''running'')]
   \<and> routeEventToStore \<lparr>source = ''sse'', se_type = ''message.part.updated'',
        data = JObj [(''part'', example_part)]\<rparr>
     = Inr [UpsertPart example_part, UpdateStatus (JStr ''ses-1'') (JStr ''running'')]"
  by (simp add: handleEvent_def routeEventToStore_def example_message_def example_part_def Let_def)

section \<open>Merging auxiliary event sources\<close>














section \<open>Connection supervision\<close>

text \<open>
  The delay that the \<open>catch\<close> block computes doubles with the counter and stops at 30
  seconds.
\<close>

lemma catch_block_delay:
  "catch_block cfg a =
     (a + 1,
      if autoReconnect cfg \<and> a + 1 < maxReconnectAttempts cfg
      then Some (min (1000 * 2 ^ (a + 1)) 30000) else None)"
  by (auto simp: catch_block_def Let_def)

lemma catch_block_default_delays:
  "map (\<lambda>a. snd (catch_block (make_config None None None None) a)) [0 ..< 10]
     = [Some 2000, Some 4000, Some 8000, Some 16000, Some 30000, Some 30000, Some 30000,
        Some 30000, Some 30000, None]"
  by (simp add: catch_block_delay make_config_def upt_rec [of _ "numeral n" for n])

text \<open>
  The fiber fails exactly when the loop is entered and the bootstrap or the stream fails,
  whatever the configuration says about reconnection.
\<close>

lemma connection_task_failed:
  "connection_task cfg running outcome = FiberFailed
     \<longleftrightarrow> running \<and> 0 < maxReconnectAttempts cfg \<and> outcome \<noteq> StreamEnds"
  by (cases outcome) (simp_all add: connection_task_def)

text \<open>
  After a failed task the port is in both tables: a further call for the port does nothing,
  and no discovery pass calls for it.
\<close>

lemma connectToServer_failed_keeps_port:
  assumes "p \<notin> connectionFibers st" "running" "0 < maxReconnectAttempts cfg"
    "outcome \<noteq> StreamEnds"
  shows "p \<in> connectedPorts (connectToServer cfg p running outcome st)"
    and "p \<in> connectionFibers (connectToServer cfg p running outcome st)"
    and "connectToServer cfg' p running' outcome' (connectToServer cfg p running outcome st)
           = connectToServer cfg p running outcome st"
    and "p \<notin> set (discovery_connects ports (connectToServer cfg p running outcome st))"
proof -
  have f: "connection_task cfg running outcome = FiberFailed"
    using assms by (simp add: connection_task_failed)
  have st': "connectToServer cfg p running outcome st
      = st\<lparr>connectedPorts := insert p (connectedPorts st),
           connectionFibers := insert p (connectionFibers st)\<rparr>"
    using assms(1) f by (simp add: connectToServer_def)
  show "p \<in> connectedPorts (connectToServer cfg p running outcome st)"
    and "p \<in> connectionFibers (connectToServer cfg p running outcome st)"
    and "p \<notin> set (discovery_connects ports (connectToServer cfg p running outcome st))"
    by (simp_all add: st' discovery_connects_def)
  show "connectToServer cfg' p running' outcome' (connectToServer cfg p running outcome st)
           = connectToServer cfg p running outcome st"
    unfolding st' by (simp add: connectToServer_def)
qed

text \<open>
  Claim C4. The code does not do what the claim says. Take the default configuration
  (automatic reconnection, at most 10 attempts), a running manager, and port 4096 with no
  task yet. When the bootstrap fails, or the stream fails after a successful bootstrap,
  the fiber of the task ends with that failure: the \<open>catch\<close> block is not entered, so
  nothing is slept and no second attempt is made. The port stays in the table of connected
  ports and in the table of tasks: a discovery pass that finds the server again does not
  call \<open>connectToServer\<close> for it, and a call for it would do nothing.
\<close>

theorem reconnect_fiber_fails_without_retry:
  "connection_task (make_config None None None None) True BootstrapFails = FiberFailed
   \<and> connection_task (make_config None None None None) True StreamFails = FiberFailed
   \<and> connectToServer (make_config None None None None) 4096 True BootstrapFails
        \<lparr>connectedPorts = {}, connectionFibers = {}\<rparr>
      = \<lparr>connectedPorts = {4096}, connectionFibers = {4096}\<rparr>
   \<and> connectToServer (make_config None None None None) 4096 True StreamFails
        \<lparr>connectedPorts = {}, connectionFibers = {}\<rparr>
      = \<lparr>connectedPorts = {4096}, connectionFibers = {4096}\<rparr>
   \<and> discovery_connects [4096] \<lparr>connectedPorts = {4096}, connectionFibers = {4096}\<rparr> = []
   \<and> connectToServer (make_config None None None None) 4096 True StreamEnds
        \<lparr>connectedPorts = {4096}, connectionFibers = {4096}\<rparr>
      = \<lparr>connectedPorts = {4096}, connectionFibers = {4096}\<rparr>"
  by (simp add: connection_task_def connectToServer_def discovery_connects_def make_config_def)

section \<open>World store: upsert by binary search\<close>

lemma bsearch_spec:
  assumes "sorted_wrt (<) (map key xs)" "lo \<le> hi" "hi \<le> length xs"
    and "\<forall>j < lo. key (xs ! j) < k"
    and "\<forall>j. hi \<le> j \<and> j < length xs \<longrightarrow> k < key (xs ! j)"
  shows "snd (bsearch key xs k lo hi) \<le> length xs
     \<and> (fst (bsearch key xs k lo hi) \<longrightarrow>
          snd (bsearch key xs k lo hi) < length xs \<and> key (xs ! snd (bsearch key xs k lo hi)) = k)
     \<and> (\<not> fst (bsearch key xs k lo hi) \<longrightarrow>
          (\<forall>j < snd (bsearch key xs k lo hi). key (xs ! j) < k)
          \<and> (\<forall>j. snd (bsearch key xs k lo hi) \<le> j \<and> j < length xs \<longrightarrow> k < key (xs ! j)))"
  using assms
proof (induction key xs k lo hi rule: bsearch.induct)
  case (1 key xs k lo hi)
  have mono: "key (xs ! i) < key (xs ! j)" if "i < j" "j < length xs" for i j
    using sorted_wrt_nth_less [OF "1.prems"(1), of i j] that by simp
  show ?case
  proof (cases "lo < hi")
    case False
    then have "bsearch key xs k lo hi = (False, lo)"
      by (simp add: bsearch.simps [of key xs k lo hi])
    moreover have "lo = hi" using False "1.prems"(2) by simp
    ultimately show ?thesis using "1.prems" by simp
  next
    case True
    define mid where "mid = (lo + hi) div 2"
    have m: "lo \<le> mid" "mid < hi" "mid < length xs"
      using True "1.prems"(3) by (simp_all add: mid_def)
    show ?thesis
    proof (cases "key (xs ! mid) = k")
      case eq: True
      then have "bsearch key xs k lo hi = (True, mid)"
        using True by (simp add: bsearch.simps [of key xs k lo hi] mid_def)
      then show ?thesis using eq m by simp
    next
      case neq: False
      show ?thesis
      proof (cases "key (xs ! mid) < k")
        case lt: True
        have b: "bsearch key xs k lo hi = bsearch key xs k (mid + 1) hi"
          using True neq lt by (simp add: bsearch.simps [of key xs k lo hi] mid_def Let_def)
        have low: "\<forall>j < mid + 1. key (xs ! j) < k"
        proof (intro allI impI)
          fix j assume "j < mid + 1"
          then consider "j = mid" | "j < mid" by linarith
          then show "key (xs ! j) < k"
          proof cases
            case 1
            then show ?thesis using lt by simp
          next
            case 2
            then have "key (xs ! j) < key (xs ! mid)" using mono m(3) by simp
            then show ?thesis using lt by simp
          qed
        qed
        show ?thesis
          unfolding b
          using "1.IH"(1) [OF True mid_def neq lt "1.prems"(1) _ "1.prems"(3) low "1.prems"(5)] m
          by simp
      next
        case ge: False
        then have gt: "k < key (xs ! mid)" using neq by simp
        have b: "bsearch key xs k lo hi = bsearch key xs k lo mid"
          using True neq ge by (simp add: bsearch.simps [of key xs k lo hi] mid_def Let_def)
        have high: "\<forall>j. mid \<le> j \<and> j < length xs \<longrightarrow> k < key (xs ! j)"
        proof (intro allI impI)
          fix j assume j: "mid \<le> j \<and> j < length xs"
          then consider "j = mid" | "mid < j" by linarith
          then show "k < key (xs ! j)"
          proof cases
            case 1
            then show ?thesis using gt by simp
          next
            case 2
            then have "key (xs ! mid) < key (xs ! j)" using mono j by simp
            then show ?thesis using gt by simp
          qed
        qed
        show ?thesis
          unfolding b
          using "1.IH"(2) [OF True mid_def neq ge "1.prems"(1) m(1) _ "1.prems"(4) high] m
          by simp
      qed
    qed
  qed
qed

lemma sorted_keys_inj:
  fixes key :: "'a \<Rightarrow> string"
  assumes "sorted_wrt (<) (map key xs)"
  shows "inj_on key (set xs)" and "distinct xs"
proof -
  have d: "distinct (map key xs)"
    using assms by (simp add: strict_sorted_iff)
  then show "inj_on key (set xs)" "distinct xs"
    by (simp_all add: distinct_map)
qed

lemma upsert_props:
  assumes "sorted_wrt (<) (map key xs)"
  shows "sorted_wrt (<) (map key (upsert key x xs))"
    and "set (upsert key x xs) = insert x {y \<in> set xs. key y \<noteq> key x}"
proof -
  define r where "r = bsearch key xs (key x) 0 (length xs)"
  define i where "i = snd r"
  have "snd (bsearch key xs (key x) 0 (length xs)) \<le> length xs
     \<and> (fst (bsearch key xs (key x) 0 (length xs)) \<longrightarrow>
          snd (bsearch key xs (key x) 0 (length xs)) < length xs
          \<and> key (xs ! snd (bsearch key xs (key x) 0 (length xs))) = key x)
     \<and> (\<not> fst (bsearch key xs (key x) 0 (length xs)) \<longrightarrow>
          (\<forall>j < snd (bsearch key xs (key x) 0 (length xs)). key (xs ! j) < key x)
          \<and> (\<forall>j. snd (bsearch key xs (key x) 0 (length xs)) \<le> j \<and> j < length xs
                \<longrightarrow> key x < key (xs ! j)))"
    by (rule bsearch_spec [OF assms]) auto
  then have spec: "i \<le> length xs"
    "fst r \<longrightarrow> i < length xs \<and> key (xs ! i) = key x"
    "\<not> fst r \<longrightarrow> (\<forall>j < i. key (xs ! j) < key x)
        \<and> (\<forall>j. i \<le> j \<and> j < length xs \<longrightarrow> key x < key (xs ! j))"
    unfolding r_def i_def by blast+
  have inj: "inj_on key (set xs)" and dist: "distinct xs"
    using sorted_keys_inj [OF assms] by simp_all
  show "sorted_wrt (<) (map key (upsert key x xs))"
  proof (cases "fst r")
    case True
    then have u: "upsert key x xs = xs[i := x]"
      by (cases r) (simp add: upsert_def i_def flip: r_def)
    have "map key (xs[i := x]) = map key xs"
      using spec(2) True by (simp add: map_update list_update_same_conv)
    then show ?thesis using assms u by simp
  next
    case False
    then have u: "upsert key x xs = take i xs @ x # drop i xs"
      by (cases r) (simp add: upsert_def i_def flip: r_def)
    have lo: "\<forall>y \<in> set (take i xs). key y < key x"
    proof
      fix y assume "y \<in> set (take i xs)"
      then obtain j where "j < length (take i xs)" "take i xs ! j = y"
        by (auto simp: in_set_conv_nth)
      then show "key y < key x" using spec(3) False by auto
    qed
    have hi: "\<forall>y \<in> set (drop i xs). key x < key y"
    proof
      fix y assume "y \<in> set (drop i xs)"
      then obtain j where j: "j < length (drop i xs)" "drop i xs ! j = y"
        by (auto simp: in_set_conv_nth)
      then have "xs ! (i + j) = y" "i + j < length xs" using spec(1) by simp_all
      moreover have "i \<le> i + j" by simp
      ultimately show "key x < key y" using spec(3) False by blast
    qed
    have t: "sorted_wrt (<) (map key (take i xs))"
      using assms by (simp add: sorted_wrt_take flip: take_map)
    have d: "sorted_wrt (<) (map key (drop i xs))"
      using assms by (simp add: sorted_wrt_drop flip: drop_map)
    have cross: "key a < key b" if "a \<in> set (take i xs)" "b \<in> set (drop i xs)" for a b
      using lo hi that by (meson less_trans)
    have "sorted_wrt (<) (map key (take i xs) @ key x # map key (drop i xs))"
      using t d lo hi cross by (simp add: sorted_wrt_append)
    then show ?thesis unfolding u by simp
  qed
  show "set (upsert key x xs) = insert x {y \<in> set xs. key y \<noteq> key x}"
  proof (cases "fst r")
    case True
    then have u: "upsert key x xs = xs[i := x]"
      by (cases r) (simp add: upsert_def i_def flip: r_def)
    have i: "i < length xs" "key (xs ! i) = key x" using spec(2) True by simp_all
    have "set (xs[i := x]) = insert x (set xs - {xs ! i})"
      using dist i(1) by (rule set_update_distinct)
    moreover have "set xs - {xs ! i} = {y \<in> set xs. key y \<noteq> key x}"
    proof -
      have mem: "xs ! i \<in> set xs" using i(1) by simp
      have "y = xs ! i \<longleftrightarrow> key y = key x" if "y \<in> set xs" for y
      proof
        assume "y = xs ! i"
        then show "key y = key x" using i(2) by simp
      next
        assume "key y = key x"
        then have "key y = key (xs ! i)" using i(2) by simp
        then show "y = xs ! i" by (rule inj_onD [OF inj _ that mem])
      qed
      then show ?thesis by auto
    qed
    ultimately show ?thesis unfolding u by simp
  next
    case False
    then have u: "upsert key x xs = take i xs @ x # drop i xs"
      by (cases r) (simp add: upsert_def i_def flip: r_def)
    have "\<forall>y \<in> set xs. key y \<noteq> key x"
    proof
      fix y assume "y \<in> set xs"
      then obtain j where j: "j < length xs" "xs ! j = y" by (auto simp: in_set_conv_nth)
      show "key y \<noteq> key x"
      proof (cases "j < i")
        case True
        then show ?thesis using spec(3) False j by auto
      next
        case ge: False
        then have "i \<le> j \<and> j < length xs" using j by simp
        then have "key x < key (xs ! j)" using spec(3) False by blast
        then show ?thesis using j by auto
      qed
    qed
    then have "{y \<in> set xs. key y \<noteq> key x} = set xs" by auto
    moreover have "set (take i xs) \<union> set (drop i xs) = set xs"
      by (metis append_take_drop_id set_append)
    ultimately show ?thesis unfolding u by simp
  qed
qed

section \<open>World store: order independence\<close>

lemma fold_upsert_props:
  fixes key :: "'a \<Rightarrow> string"
  assumes "sorted_wrt (<) (map key R)"
  shows "sorted_wrt (<) (map key (foldl (\<lambda>acc x. upsert key x acc) R xs))
     \<and> set (foldl (\<lambda>acc x. upsert key x acc) R xs)
        = set (final_entities key xs) \<union> {y \<in> set R. key y \<notin> set (map key xs)}"
  using assms
proof (induction xs arbitrary: R)
  case Nil
  then show ?case by simp
next
  case (Cons x xs)
  have s: "sorted_wrt (<) (map key (upsert key x R))"
    and u: "set (upsert key x R) = insert x {y \<in> set R. key y \<noteq> key x}"
    using upsert_props [OF Cons.prems] by simp_all
  have ih: "sorted_wrt (<) (map key (foldl (\<lambda>acc x. upsert key x acc) (upsert key x R) xs))"
    "set (foldl (\<lambda>acc x. upsert key x acc) (upsert key x R) xs)
        = set (final_entities key xs) \<union> {y \<in> set (upsert key x R). key y \<notin> set (map key xs)}"
    using Cons.IH [OF s] by simp_all
  have "set (final_entities key xs) \<union> {y \<in> set (upsert key x R). key y \<notin> set (map key xs)}
      = set (final_entities key (x # xs)) \<union> {y \<in> set R. key y \<notin> set (map key (x # xs))}"
    unfolding u by auto
  then show ?case using ih by simp
qed

lemma sorted_keys_unique:
  fixes key :: "'a \<Rightarrow> string"
  assumes "sorted_wrt (<) (map key xs)" "sorted_wrt (<) (map key ys)" "set xs = set ys"
  shows "xs = ys"
proof -
  have "inj_on key (set xs \<union> set ys)"
    using sorted_keys_inj(1) [OF assms(1)] assms(3) by simp
  moreover have "sorted (map key xs)" "distinct (map key xs)"
    "sorted (map key ys)" "distinct (map key ys)"
    using assms(1,2) by (simp_all add: strict_sorted_iff)
  ultimately show ?thesis
    using assms(3) by (intro map_sorted_distinct_set_unique)
qed

lemma sort_key_distinct_keys:
  fixes key :: "'a \<Rightarrow> string"
  assumes "distinct (map key xs)"
  shows "sorted_wrt (<) (map key (sort_key key xs))"
proof -
  have "sorted (map key (sort_key key xs))" by simp
  moreover have "distinct (map key (sort_key key xs))"
  proof -
    have m: "mset (map key (sort_key key xs)) = mset (map key xs)" by simp
    show ?thesis using assms mset_eq_imp_distinct_iff [OF m] by simp
  qed
  ultimately show ?thesis by (simp add: strict_sorted_iff)
qed

lemma upserts_eq_bulk:
  fixes key :: "'a \<Rightarrow> string"
  assumes "distinct (map key final)" "set final = set (final_entities key xs)"
  shows "foldl (\<lambda>acc x. upsert key x acc) [] xs = sort_key key final"
proof -
  have a: "sorted_wrt (<) (map key (foldl (\<lambda>acc x. upsert key x acc) [] xs))"
    "set (foldl (\<lambda>acc x. upsert key x acc) [] xs) = set (final_entities key xs)"
    using fold_upsert_props [of key "[]" xs] by simp_all
  have b: "sorted_wrt (<) (map key (sort_key key final))"
    using assms(1) by (rule sort_key_distinct_keys)
  show ?thesis
    using a(1) b by (rule sorted_keys_unique) (simp add: a(2) assms(2))
qed

lemma apply_calls_fields:
  "data_sessions (apply_calls cs st)
      = foldl (\<lambda>acc x. upsert s_id x acc) (data_sessions st) (session_calls cs)
   \<and> data_messages (apply_calls cs st)
      = foldl (\<lambda>acc x. upsert m_id x acc) (data_messages st) (message_calls cs)
   \<and> data_parts (apply_calls cs st)
      = foldl (\<lambda>acc x. upsert p_id x acc) (data_parts st) (part_calls cs)
   \<and> data_status (apply_calls cs st) = data_status st
   \<and> data_connectionStatus (apply_calls cs st) = data_connectionStatus st"
proof (induction cs arbitrary: st)
  case Nil
  then show ?case by (simp add: session_calls_def message_calls_def part_calls_def)
next
  case (Cons c cs)
  show ?case
  proof (cases c)
    case (UpSession s)
    then show ?thesis
      using Cons.IH [of "upsertSession s st"]
      by (simp add: session_calls_def message_calls_def part_calls_def upsertSession_def)
  next
    case (UpMessage m)
    then show ?thesis
      using Cons.IH [of "upsertMessage m st"]
      by (simp add: session_calls_def message_calls_def part_calls_def upsertMessage_def)
  next
    case (UpPart p)
    then show ?thesis
      using Cons.IH [of "upsertPart p st"]
      by (simp add: session_calls_def message_calls_def part_calls_def upsertPart_def)
  qed
qed

text \<open>
  Claim C2. Take any sequence of \<open>upsertSession\<close>, \<open>upsertMessage\<close> and \<open>upsertPart\<close> calls
  on a fresh store, and let the final sessions, messages and parts be, for each id, the
  payload applied last. Whatever the order of the calls, the store they leave, and so the
  \<open>WorldState\<close> that \<open>getState\<close> derives from it, is the one left by a single
  \<open>setSessions\<close>, \<open>setMessages\<close> and \<open>setParts\<close> with those final entities in any order.
\<close>

theorem upsert_order_independent:
  assumes "distinct (map s_id ss)" "set ss = set (final_entities s_id (session_calls cs))"
    and "distinct (map m_id ms)" "set ms = set (final_entities m_id (message_calls cs))"
    and "distinct (map p_id ps)" "set ps = set (final_entities p_id (part_calls cs))"
  shows "apply_calls cs empty_store = setParts ps (setMessages ms (setSessions ss empty_store))
     \<and> getState now (apply_calls cs empty_store)
        = getState now (setParts ps (setMessages ms (setSessions ss empty_store)))"
proof -
  note f = apply_calls_fields [of cs empty_store]
  have s: "data_sessions (apply_calls cs empty_store) = sort_key s_id ss"
    using f upserts_eq_bulk [OF assms(1,2)] by (simp add: empty_store_def)
  have m: "data_messages (apply_calls cs empty_store) = sort_key m_id ms"
    using f upserts_eq_bulk [OF assms(3,4)] by (simp add: empty_store_def)
  have p: "data_parts (apply_calls cs empty_store) = sort_key p_id ps"
    using f upserts_eq_bulk [OF assms(5,6)] by (simp add: empty_store_def)
  have "apply_calls cs empty_store = setParts ps (setMessages ms (setSessions ss empty_store))"
    using s m p f
    by (intro WorldStoreData.equality)
       (simp_all add: setParts_def setMessages_def setSessions_def empty_store_def)
  then show ?thesis by simp
qed

theorem upsert_order_independent_witness:
  "getState 0 (apply_calls sample_calls empty_store)
     = getState 0
         (setParts [sample_part ''part-1'' ''msg-1'' ''Hello'']
            (setMessages [sample_message ''msg-1'' ''ses-1'' ''assistant'' 1500]
               (setSessions [sample_session ''ses-1'' 1000, sample_session ''ses-2'' 2000]
                  empty_store)))"
proof -
  have 1: "distinct (map s_id [sample_session ''ses-1'' 1000, sample_session ''ses-2'' 2000])"
    by (simp add: sample_session_def)
  have 2: "set [sample_session ''ses-1'' 1000, sample_session ''ses-2'' 2000]
      = set (final_entities s_id (session_calls sample_calls))"
    by (auto simp: sample_calls_def session_calls_def sample_session_def)
  have 3: "distinct (map m_id [sample_message ''msg-1'' ''ses-1'' ''assistant'' 1500])"
    by simp
  have 4: "set [sample_message ''msg-1'' ''ses-1'' ''assistant'' 1500]
      = set (final_entities m_id (message_calls sample_calls))"
    by (simp add: sample_calls_def message_calls_def)
  have 5: "distinct (map p_id [sample_part ''part-1'' ''msg-1'' ''Hello''])"
    by simp
  have 6: "set [sample_part ''part-1'' ''msg-1'' ''Hello'']
      = set (final_entities p_id (part_calls sample_calls))"
    by (simp add: sample_calls_def part_calls_def sample_part_def)
  show ?thesis
    using upsert_order_independent [OF 1 2 3 4 5 6, of 0] by (rule conjunct2)
qed

section \<open>World store: the derived view\<close>

lemmas eval_store =
  getState_def enrich_session_def enrich_message_def recency_def context_usage_def usage_of_def
  completed_assistant_def token_total_def or0_def round2_def
  setSessions_def setMessages_def setParts_def setStatus_def updateStatus_def empty_store_def
  upsertSession_def upsertMessage_def upsertPart_def upsert_def bsearch.simps
  sample_session_def sample_message_def sample_part_def sample_model_def Let_def
  less_char_def less_eq_char_def

lemma in_w_sessions:
  "e \<in> set (w_sessions (getState now st))
     \<longleftrightarrow> (\<exists>s \<in> set (data_sessions st). e = enrich_session st s)"
  by (auto simp: getState_def Let_def)

lemma e_messages_enrich:
  "map e_message (e_messages (enrich_session st s))
     = filter (\<lambda>m. m_sessionID m = s_id s) (data_messages st)"
  by (simp add: enrich_session_def Let_def enrich_message_def comp_def)

lemma find_skip: "\<forall>y \<in> set ys. \<not> P y \<Longrightarrow> List.find P (ys @ zs) = List.find P zs"
  by (induction ys) simp_all

lemma context_usage_last:
  assumes "completed_assistant m" "\<forall>y \<in> set ys. \<not> completed_assistant y"
  shows "context_usage (xs @ m # ys) = usage_of m"
proof -
  have "List.find completed_assistant (rev ys @ m # rev xs) = Some m"
    using assms by (simp add: find_skip)
  then show ?thesis by (simp add: context_usage_def)
qed

lemma context_usage_none:
  assumes "\<forall>y \<in> set msgs. \<not> completed_assistant y"
  shows "context_usage msgs = 0"
proof -
  have "List.find completed_assistant (rev msgs @ []) = List.find completed_assistant []"
    using assms by (intro find_skip) simp
  then show ?thesis by (simp add: context_usage_def)
qed

text \<open>
  Claim C8. For every session of the derived view, let its messages be listed in id order.
  If the last completed assistant message among them carries token counts and a model with
  a positive context limit, \<open>contextUsagePercent\<close> is
  \<open>100 * (input + output + reasoning + cache.read + cache.write) / limits.context\<close> rounded
  to two decimals, an absent token field counting as 0; with no completed assistant message
  it is 0.
\<close>

theorem context_usage_percent:
  assumes "e \<in> set (w_sessions (getState now st))"
  shows "(map e_message (e_messages e) = xs @ m # ys
          \<and> completed_assistant m \<and> (\<forall>y \<in> set ys. \<not> completed_assistant y)
          \<and> m_tokens m = Some t \<and> m_model m = Some md \<and> limits md = Some l
          \<and> 0 < limit_context l
          \<longrightarrow> contextUsagePercent e
              = round2 (100 * of_nat (or0 (tok_input t) + or0 (tok_output t) + or0 (tok_reasoning t)
                                        + or0 (tok_cache_read t) + or0 (tok_cache_write t))
                          / of_nat (limit_context l)))
       \<and> ((\<forall>y \<in> set (map e_message (e_messages e)). \<not> completed_assistant y)
          \<longrightarrow> contextUsagePercent e = 0)"
proof -
  obtain s where s: "s \<in> set (data_sessions st)" "e = enrich_session st s"
    using assms in_w_sessions by blast
  define msgs where "msgs = filter (\<lambda>m. m_sessionID m = s_id s) (data_messages st)"
  have em: "map e_message (e_messages e) = msgs"
    unfolding s(2) msgs_def by (rule e_messages_enrich)
  have cu: "contextUsagePercent e = context_usage msgs"
    by (simp add: s(2) enrich_session_def Let_def msgs_def)
  have 1: "contextUsagePercent e
              = round2 (100 * of_nat (or0 (tok_input t) + or0 (tok_output t) + or0 (tok_reasoning t)
                                        + or0 (tok_cache_read t) + or0 (tok_cache_write t))
                          / of_nat (limit_context l))"
    if h: "map e_message (e_messages e) = xs @ m # ys
          \<and> completed_assistant m \<and> (\<forall>y \<in> set ys. \<not> completed_assistant y)
          \<and> m_tokens m = Some t \<and> m_model m = Some md \<and> limits md = Some l
          \<and> 0 < limit_context l"
  proof -
    have "context_usage msgs = usage_of m"
      using h em context_usage_last [of m ys xs] by simp
    then show ?thesis
      using h cu by (simp add: usage_of_def token_total_def)
  qed
  have 2: "contextUsagePercent e = 0"
    if "\<forall>y \<in> set (map e_message (e_messages e)). \<not> completed_assistant y"
    using that cu context_usage_none [of msgs] unfolding em by simp
  show ?thesis using 1 2 by blast
qed

theorem context_usage_percent_witness:
  "map contextUsagePercent
     (w_sessions (getState 0 (usage_test_store (usage_test_message (Some 1000) (Some 500))))) = [4]
   \<and> map contextUsagePercent
     (w_sessions (getState 0 (usage_test_store (usage_test_message None (Some 0))))) = [13 / 4]
   \<and> map contextUsagePercent
     (w_sessions (getState 0 (usage_test_store (sample_message ''msg-1'' ''ses-1'' ''assistant'' 1000))))
     = [0]"
proof -
  define e where "e = (\<lambda>m. enrich_session (usage_test_store m) (sample_session ''ses-1'' 1000))"
  have ws: "w_sessions (getState 0 (usage_test_store m)) = [e m]" for m
    by (simp add: getState_def Let_def usage_test_store_def setSessions_def setMessages_def
        empty_store_def e_def)
  have mem: "e m \<in> set (w_sessions (getState 0 (usage_test_store m)))" for m
    by (simp add: ws)
  have msgs: "map e_message (e_messages (e m)) = [] @ m # []" if "m_sessionID m = ''ses-1''" for m
    using that
    by (simp add: e_def e_messages_enrich usage_test_store_def setSessions_def setMessages_def
        empty_store_def sample_session_def)
  let ?a = "usage_test_message (Some 1000) (Some 500)"
  let ?b = "usage_test_message None (Some 0)"
  let ?c = "sample_message ''msg-1'' ''ses-1'' ''assistant'' 1000"
  let ?l = "\<lparr>limit_context = 200000, limit_output = 16384\<rparr>"
  have a: "contextUsagePercent (e ?a) = 4"
    using context_usage_percent [OF mem [of ?a], of "[]" ?a "[]" "the (m_tokens ?a)" sample_model ?l]
      msgs [of ?a]
    by (simp add: usage_test_message_def sample_message_def sample_model_def
        completed_assistant_def or0_def round2_def)
  have b: "contextUsagePercent (e ?b) = 13 / 4"
    using context_usage_percent [OF mem [of ?b], of "[]" ?b "[]" "the (m_tokens ?b)" sample_model ?l]
      msgs [of ?b]
    by (simp add: usage_test_message_def sample_message_def sample_model_def
        completed_assistant_def or0_def round2_def)
  have "map e_message (e_messages (e ?c)) = [?c]"
    using msgs [of ?c] by (simp add: sample_message_def)
  then have pre: "\<forall>y \<in> set (map e_message (e_messages (e ?c))). \<not> completed_assistant y"
    by (simp add: sample_message_def completed_assistant_def)
  have c: "contextUsagePercent (e ?c) = 0"
    using context_usage_percent [OF mem [of ?c], THEN conjunct2] pre by (rule mp)
  show ?thesis using a b c by (simp add: ws)
qed

section \<open>World store: parts that arrive before their parents\<close>

lemma sum_list_sort_key: "sum_list (map f (sort_key k xs)) = sum_list (map (f :: 'a \<Rightarrow> nat) xs)"
proof -
  have "mset (map f (sort_key k xs)) = mset (map f xs)" by simp
  then have "sum_mset (mset (map f (sort_key k xs))) = sum_mset (mset (map f xs))" by simp
  then show ?thesis by (simp only: sum_mset_sum_list)
qed

lemma occurrences_eq:
  "occurrences p (getState now st)
     = sum_list (map (\<lambda>s. sum_list (map (\<lambda>m. count_list (filter (\<lambda>q. p_messageID q = m_id m) (data_parts st)) p)
                                          (filter (\<lambda>m. m_sessionID m = s_id s) (data_messages st))))
                     (data_sessions st))"
proof -
  have "sum_list (map (\<lambda>em. count_list (parts em) p) (e_messages (enrich_session st s)))
      = sum_list (map (\<lambda>m. count_list (filter (\<lambda>q. p_messageID q = m_id m) (data_parts st)) p)
                      (filter (\<lambda>m. m_sessionID m = s_id s) (data_messages st)))" for s
    by (simp add: enrich_session_def Let_def enrich_message_def comp_def)
  then show ?thesis
    by (simp add: occurrences_def getState_def Let_def sum_list_sort_key comp_def)
qed

lemma count_list_filter:
  "count_list (filter P xs) x = (if P x then count_list xs x else 0)"
  by (induction xs) auto

lemma count_list_distinct:
  "distinct xs \<Longrightarrow> x \<in> set xs \<Longrightarrow> count_list xs x = 1"
  by (induction xs) (auto simp: count_list_0_iff)

lemma filter_key_singleton:
  fixes key :: "'a \<Rightarrow> string"
  assumes "sorted_wrt (<) (map key xs)" "x \<in> set xs"
  shows "filter (\<lambda>y. key y = key x) xs = [x]"
  using assms
proof (induction xs)
  case Nil
  then show ?case by simp
next
  case (Cons a xs)
  have above: "\<forall>y \<in> set xs. key a < key y" and srt: "sorted_wrt (<) (map key xs)"
    using Cons.prems(1) by simp_all
  show ?case
  proof (cases "a = x")
    case True
    then have "\<forall>y \<in> set xs. key y \<noteq> key x" using above by auto
    then have "filter (\<lambda>y. key y = key x) xs = []" by (simp add: filter_empty_conv)
    then show ?thesis using True by simp
  next
    case False
    then have x: "x \<in> set xs" using Cons.prems(2) by simp
    then have "key a \<noteq> key x" using above by auto
    then show ?thesis using Cons.IH [OF srt x] by simp
  qed
qed

lemma sum_indicator_key:
  fixes key :: "'a \<Rightarrow> string"
  assumes "sorted_wrt (<) (map key xs)" "x \<in> set xs"
  shows "sum_list (map (\<lambda>y. if key y = key x \<and> Q y then 1 else 0) xs) = (if Q x then 1 else (0::nat))"
proof -
  have "sum_list (map (\<lambda>y. if key y = key x \<and> Q y then 1 else 0) xs)
      = length (filter (\<lambda>y. key y = key x \<and> Q y) xs)"
    by (induction xs) simp_all
  also have "filter (\<lambda>y. key y = key x \<and> Q y) xs = filter Q (filter (\<lambda>y. key y = key x) xs)"
    by (simp add: conj_commute)
  also have "\<dots> = filter Q [x]"
    using filter_key_singleton [OF assms] by simp
  finally show ?thesis by simp
qed

lemma sum_list_filter_indicator:
  "sum_list (map f (filter P xs)) = sum_list (map (\<lambda>y. if P y then f y else (0::nat)) xs)"
  by (induction xs) simp_all

lemma occurrences_zero:
  assumes "\<forall>m' \<in> set (data_messages st).
      m_id m' = p_messageID p \<longrightarrow> m_sessionID m' \<notin> set (map s_id (data_sessions st))"
  shows "occurrences p (getState now st) = 0"
proof -
  have "count_list (filter (\<lambda>q. p_messageID q = m_id m') (data_parts st)) p = 0"
    if "s' \<in> set (data_sessions st)" "m' \<in> set (data_messages st)" "m_sessionID m' = s_id s'"
    for s' m'
  proof -
    have "m_id m' \<noteq> p_messageID p" using assms that by force
    then show ?thesis by (auto simp: count_list_filter)
  qed
  then show ?thesis
    unfolding occurrences_eq by (auto simp: sum_list_eq_0_iff)
qed

lemma occurrences_one:
  assumes S: "sorted_wrt (<) (map s_id (data_sessions st))" "s \<in> set (data_sessions st)"
    and M: "sorted_wrt (<) (map m_id (data_messages st))" "m \<in> set (data_messages st)"
    and P: "sorted_wrt (<) (map p_id (data_parts st))" "p \<in> set (data_parts st)"
    and link: "m_id m = p_messageID p" "m_sessionID m = s_id s"
  shows "occurrences p (getState now st) = 1"
proof -
  have cnt: "count_list (data_parts st) p = 1"
    using sorted_keys_inj(2) [OF P(1)] P(2) by (rule count_list_distinct)
  have c: "count_list (filter (\<lambda>q. p_messageID q = m_id m') (data_parts st)) p
      = (if m_id m' = m_id m then 1 else 0)" for m'
    using cnt link(1) by (auto simp: count_list_filter)
  have inner: "sum_list (map (\<lambda>m'. count_list (filter (\<lambda>q. p_messageID q = m_id m') (data_parts st)) p)
                    (filter (\<lambda>m'. m_sessionID m' = s_id s') (data_messages st)))
      = (if s_id s' = s_id s \<and> True then 1 else 0)" for s'
  proof -
    have "sum_list (map (\<lambda>m'. count_list (filter (\<lambda>q. p_messageID q = m_id m') (data_parts st)) p)
                    (filter (\<lambda>m'. m_sessionID m' = s_id s') (data_messages st)))
        = sum_list (map (\<lambda>m'. if m_sessionID m' = s_id s' then (if m_id m' = m_id m then 1 else 0) else 0)
                    (data_messages st))"
      by (simp add: c sum_list_filter_indicator)
    also have "\<dots> = sum_list (map (\<lambda>m'. if m_id m' = m_id m \<and> m_sessionID m' = s_id s' then 1 else 0)
                    (data_messages st))"
      by (intro arg_cong [where f = sum_list] map_cong) auto
    also have "\<dots> = (if m_sessionID m = s_id s' then 1 else 0)"
      by (rule sum_indicator_key [OF M])
    finally show ?thesis using link(2) by auto
  qed
  have "occurrences p (getState now st)
      = sum_list (map (\<lambda>s'. if s_id s' = s_id s \<and> True then 1 else 0) (data_sessions st))"
    unfolding occurrences_eq by (simp only: inner)
  also have "\<dots> = (if True then 1 else 0)"
    by (rule sum_indicator_key [OF S])
  finally show ?thesis by simp
qed

text \<open>
  Claim C6. In a store whose collections are sorted by id, \<open>upsertPart\<close> keeps a part
  whatever its \<open>messageID\<close>; the operations of the model are total, so none of them can
  fail. As long as no stored message with that id belongs to a stored session, the part
  occurs under no enriched message of any session. Once the parent message and its session
  have been upserted, in either order, the part occurs exactly once in the whole derived
  view, under the enriched message of its parent in the parent's session.
\<close>

theorem orphan_part_joins_later:
  assumes "sorted_wrt (<) (map s_id (data_sessions st))"
    and "sorted_wrt (<) (map m_id (data_messages st))"
    and "sorted_wrt (<) (map p_id (data_parts st))"
    and "m_id m = p_messageID p" and "m_sessionID m = s_id s"
  shows "p \<in> set (data_parts (upsertPart p st))
     \<and> ((\<forall>m' \<in> set (data_messages st).
            m_id m' = p_messageID p \<longrightarrow> m_sessionID m' \<notin> set (map s_id (data_sessions st)))
         \<longrightarrow> occurrences p (getState now (upsertPart p st)) = 0)
     \<and> occurrences p (getState now (upsertSession s (upsertMessage m (upsertPart p st)))) = 1
     \<and> (\<exists>e \<in> set (w_sessions (getState now (upsertSession s (upsertMessage m (upsertPart p st))))).
          e_session e = s
          \<and> (\<exists>em \<in> set (e_messages e). e_message em = m \<and> count_list (parts em) p = 1))
     \<and> upsertMessage m (upsertSession s (upsertPart p st))
        = upsertSession s (upsertMessage m (upsertPart p st))"
proof -
  define st3 where "st3 = upsertSession s (upsertMessage m (upsertPart p st))"
  have S3: "sorted_wrt (<) (map s_id (data_sessions st3))" "s \<in> set (data_sessions st3)"
    using upsert_props [OF assms(1), of s]
    by (simp_all add: st3_def upsertSession_def upsertMessage_def upsertPart_def)
  have M3: "sorted_wrt (<) (map m_id (data_messages st3))" "m \<in> set (data_messages st3)"
    using upsert_props [OF assms(2), of m]
    by (simp_all add: st3_def upsertSession_def upsertMessage_def upsertPart_def)
  have P3: "sorted_wrt (<) (map p_id (data_parts st3))" "p \<in> set (data_parts st3)"
    using upsert_props [OF assms(3), of p]
    by (simp_all add: st3_def upsertSession_def upsertMessage_def upsertPart_def)
  have 1: "p \<in> set (data_parts (upsertPart p st))"
    using upsert_props(2) [OF assms(3), of p] by (simp add: upsertPart_def)
  have 2: "occurrences p (getState now (upsertPart p st)) = 0"
    if "\<forall>m' \<in> set (data_messages st).
            m_id m' = p_messageID p \<longrightarrow> m_sessionID m' \<notin> set (map s_id (data_sessions st))"
    using that by (intro occurrences_zero) (simp add: upsertPart_def)
  have 3: "occurrences p (getState now st3) = 1"
    using S3 M3 P3 assms(4,5) by (rule occurrences_one)
  have cnt: "count_list (data_parts st3) p = 1"
    using sorted_keys_inj(2) [OF P3(1)] P3(2) by (rule count_list_distinct)
  define em where "em = enrich_message (data_parts st3) m"
  have e_in: "enrich_session st3 s \<in> set (w_sessions (getState now st3))"
    unfolding in_w_sessions using S3(2) by blast
  have em_in: "em \<in> set (e_messages (enrich_session st3 s))"
    using M3(2) assms(5) by (simp add: enrich_session_def Let_def em_def)
  have em_ok: "e_message em = m \<and> count_list (parts em) p = 1"
    using cnt assms(4) by (simp add: em_def enrich_message_def count_list_filter)
  have 4: "\<exists>e \<in> set (w_sessions (getState now st3)).
          e_session e = s
          \<and> (\<exists>em \<in> set (e_messages e). e_message em = m \<and> count_list (parts em) p = 1)"
  proof (rule bexI [OF _ e_in], intro conjI)
    show "e_session (enrich_session st3 s) = s"
      by (simp add: enrich_session_def Let_def)
    show "\<exists>em \<in> set (e_messages (enrich_session st3 s)).
        e_message em = m \<and> count_list (parts em) p = 1"
      using em_in em_ok by blast
  qed
  have 5: "upsertMessage m (upsertSession s (upsertPart p st)) = st3"
    by (simp add: st3_def upsertSession_def upsertMessage_def upsertPart_def)
  show ?thesis
    using 1 2 3 4 5 unfolding st3_def by blast
qed

theorem orphan_part_joins_later_witness:
  "occurrences (sample_part ''part-1'' ''msg-X'' ''Hello'')
     (getState 0 (upsertPart (sample_part ''part-1'' ''msg-X'' ''Hello'') empty_store)) = 0
   \<and> occurrences (sample_part ''part-1'' ''msg-X'' ''Hello'')
     (getState 0
        (upsertSession (sample_session ''ses-1'' 1000)
           (upsertMessage (sample_message ''msg-X'' ''ses-1'' ''assistant'' 1500)
              (upsertPart (sample_part ''part-1'' ''msg-X'' ''Hello'') empty_store)))) = 1"
proof -
  let ?p = "sample_part ''part-1'' ''msg-X'' ''Hello''"
  let ?m = "sample_message ''msg-X'' ''ses-1'' ''assistant'' 1500"
  let ?s = "sample_session ''ses-1'' 1000"
  have a: "sorted_wrt (<) (map s_id (data_sessions empty_store))"
    "sorted_wrt (<) (map m_id (data_messages empty_store))"
    "sorted_wrt (<) (map p_id (data_parts empty_store))"
    by (simp_all add: empty_store_def)
  have l: "m_id ?m = p_messageID ?p" "m_sessionID ?m = s_id ?s"
    by (simp_all add: sample_message_def sample_part_def sample_session_def)
  note inst = orphan_part_joins_later [OF a l, of 0]
  have none: "\<forall>m' \<in> set (data_messages empty_store).
      m_id m' = p_messageID ?p \<longrightarrow> m_sessionID m' \<notin> set (map s_id (data_sessions empty_store))"
    by (simp add: empty_store_def)
  have z: "occurrences ?p (getState 0 (upsertPart ?p empty_store)) = 0"
    using inst [THEN conjunct2, THEN conjunct1] none by (rule mp)
  have o: "occurrences ?p (getState 0 (upsertSession ?s (upsertMessage ?m (upsertPart ?p empty_store)))) = 1"
    using inst [THEN conjunct2, THEN conjunct2, THEN conjunct1] .
  show ?thesis using z o by (rule conjI)
qed

section \<open>Resume when both catch-up runs see the same backends\<close>

lemma tail_loop_offsets:
  "map offset (tail_loop (Num n) live)
     = offsets_after n (length (filter (\<lambda>x. recognized (g_type (snd x))) live))"
proof (induction live arbitrary: n)
  case Nil
  then show ?case by simp
next
  case (Cons x live)
  obtain now ev where x: "x = (now, ev)" by (cases x)
  show ?case
  proof (cases "recognized (g_type ev)")
    case True
    then show ?thesis
      using Cons.IH [of "n + 1"] by (simp add: x incr_def Let_def offsets_after_Suc)
  next
    case False
    then show ?thesis using Cons.IH [of n] by (simp add: x)
  qed
qed

lemma last_offsets_after:
  "0 < k \<Longrightarrow> last (offsets_after n k) = format_offset (Num (n + int k))"
proof -
  assume "0 < k"
  then obtain j where j: "k = Suc j" by (cases k) auto
  have "last (offsets_after n k) = offsets_after n k ! j"
    using j by (simp add: last_conv_nth offsets_after_def del: upt_Suc)
  also have "\<dots> = format_offset (Num (n + 1 + int j))"
    using j by (simp add: nth_offsets_after)
  finally show ?thesis using j by (simp add: add.commute add.left_commute)
qed

text \<open>
  When the two runs of the catch-up see the same backends, and the numbering stays below
  \<open>10^10\<close>, the resumed stream is numbered consecutively from the saved offset: the history
  first, then the live events, with no offset used twice and none skipped.
\<close>

lemma resume_same_servers_offsets:
  assumes sc: "start_counter saved = Num n" and n0: "0 \<le> n"
    and bound: "n + int (event_count servers) < 10 ^ 10"
  shows "map offset (resumeEvents nrm clock1 servers clock2 servers saved live)
     = offsets_after n (event_count servers
         + length (filter (\<lambda>x. recognized (g_type (snd x))) live))"
proof -
  define k where "k = event_count servers"
  define R1 where "R1 = catchUpEvents nrm clock1 servers saved"
  define R2 where "R2 = catchUpEvents nrm clock2 servers saved"
  have l1: "length (events R1) = k" and l2: "length (events R2) = k"
    using length_catchUp_events [OF sc] by (simp_all add: R1_def R2_def k_def)
  have h: "map offset (events R1) = offsets_after n k"
    using catchUp_events_shape [OF sc, of nrm clock1 servers] l1 by (simp add: R1_def)
  have start: "start_counter (or_else (nextOffset R2) saved) = Num (n + int k)"
  proof (cases "k = 0")
    case True
    then have "events R2 = []" using l2 by simp
    then have "nextOffset R2 = None"
      using catchUp_events_shape [OF sc, of nrm clock2 servers] by (simp add: R2_def)
    then show ?thesis using sc True by (simp add: or_else_def)
  next
    case False
    then have ne: "events R2 \<noteq> []" using l2 by auto
    have s: "map offset (events R2) = offsets_after n k"
      using catchUp_events_shape [OF sc, of nrm clock2 servers] l2 by (simp add: R2_def)
    have "offset (last (events R2)) = last (map offset (events R2))"
      using ne by (simp add: last_map)
    also have "\<dots> = format_offset (Num (n + int k))"
      unfolding s using False by (simp add: last_offsets_after)
    finally have lo: "offset (last (events R2)) = format_offset (Num (n + int k))" .
    have nx: "nextOffset R2 = Some (format_offset (Num (n + int k)))"
      using catchUp_events_shape [OF sc, of nrm clock2 servers] ne lo by (simp add: R2_def)
    have r: "0 \<le> n + int k" "n + int k < 10 ^ 10" using n0 bound by (simp_all add: k_def)
    have fx: "format_offset (Num (n + int k)) = fixed_digits 10 (nat (n + int k))"
      using r by (rule format_offset_fixed)
    have "format_offset (Num (n + int k)) \<noteq> []"
      unfolding fx by (metis length_fixed_digits list.size(3) zero_neq_numeral)
    then show ?thesis
      using nx parseInt_format_offset [OF r] by (simp add: or_else_def start_counter_def)
  qed
  have t: "map offset (tailEvents (or_else (nextOffset R2) saved) live)
      = offsets_after (n + int k) (length (filter (\<lambda>x. recognized (g_type (snd x))) live))"
    unfolding tailEvents_def start by (rule tail_loop_offsets)
  show ?thesis
    unfolding resumeEvents_concat
    using h t by (simp add: offsets_after_add flip: R1_def R2_def k_def)
qed

section \<open>World store: every store built by upserts is sorted\<close>

lemma apply_calls_sorted:
  "sorted_wrt (<) (map s_id (data_sessions (apply_calls cs empty_store)))
   \<and> sorted_wrt (<) (map m_id (data_messages (apply_calls cs empty_store)))
   \<and> sorted_wrt (<) (map p_id (data_parts (apply_calls cs empty_store)))"
  using apply_calls_fields [of cs empty_store]
    fold_upsert_props [of s_id "[]" "session_calls cs"]
    fold_upsert_props [of m_id "[]" "message_calls cs"]
    fold_upsert_props [of p_id "[]" "part_calls cs"]
  by (simp add: empty_store_def)

end
